theory Spec2Isabelle
  imports Main
begin

section \<open>Strings as the parser sees them\<close>

text \<open>
  Strings are lists of \<^typ>\<open>char\<close>, and a \<^typ>\<open>char\<close> is one of the 256 characters
  U+0000 to U+00FF: a text with a character beyond U+00FF is outside the model.
  \<open>split_sp\<close> is \<^verbatim>\<open>line.split(' ')\<close>: it cuts at
  every single space, so two spaces in a row give an empty token, and the result always
  has at least one element. \<open>join_sp\<close> is \<^verbatim>\<open>split.join(' ')\<close>.
\<close>

fun split_sp :: "string \<Rightarrow> string list" where
  "split_sp [] = [[]]"
| "split_sp (c # cs) =
     (if c = CHR '' '' then [] # split_sp cs
      else (case split_sp cs of [] \<Rightarrow> [[c]] | w # ws \<Rightarrow> (c # w) # ws))"

fun join_sp :: "string list \<Rightarrow> string" where
  "join_sp [] = []"
| "join_sp [w] = w"
| "join_sp (w # v # ws) = w @ CHR '' '' # join_sp (v # ws)"

text \<open>
  \<^verbatim>\<open>value.match(/@[^@]+@/)\<close>: the pattern is not anchored, so it asks whether the text
  contains an \<open>@\<close>, then at least one character other than \<open>@\<close>, then an \<open>@\<close>.
  \<open>match_id\<close> scans for the first \<open>@\<close>, \<open>match_after_at\<close> has just read an \<open>@\<close>,
  \<open>match_in_body\<close> has read an \<open>@\<close> and at least one other character since.
\<close>

fun match_in_body :: "string \<Rightarrow> bool" where
  "match_in_body [] = False"
| "match_in_body (c # cs) = (if c = CHR ''@'' then True else match_in_body cs)"

fun match_after_at :: "string \<Rightarrow> bool" where
  "match_after_at [] = False"
| "match_after_at (c # cs) = (if c = CHR ''@'' then match_after_at cs else match_in_body cs)"

fun match_id :: "string \<Rightarrow> bool" where
  "match_id [] = False"
| "match_id (c # cs) = (if c = CHR ''@'' then match_after_at cs else match_id cs)"

text \<open>The pattern as a regular expression reads: some occurrence of \<open>@ mid @\<close> with
  \<open>mid\<close> non-empty and free of \<open>@\<close>.\<close>

definition contains_id_marker :: "string \<Rightarrow> bool" where
  "contains_id_marker v \<longleftrightarrow>
     (\<exists>pre mid post. v = pre @ CHR ''@'' # mid @ CHR ''@'' # post \<and> mid \<noteq> [] \<and> CHR ''@'' \<notin> set mid)"

section \<open>Records\<close>

text \<open>
  A \<^verbatim>\<open>FamilyRow\<close> object. \<open>level\<close> is a string when the row comes from \<^verbatim>\<open>formatLine\<close>
  (\<^verbatim>\<open>split.shift()\<close>) and a number when an edit operation builds the row
  (\<^verbatim>\<open>new FamilyRow(0, ...)\<close>). A field the constructor leaves unset is \<open>None\<close>.
  \<open>props\<close> are the properties that \<^verbatim>\<open>parseLine\<close> and the edit operations hang on the
  object under a tag name, in insertion order, each holding one row or an Array of rows.
  The value field is called \<open>val\<close> here. The per-run fields \<^verbatim>\<open>visited\<close> and \<^verbatim>\<open>rowLevel\<close>
  live in the layout state below, and
  \<^verbatim>\<open>parent\<close> is the parser's stack.
\<close>

datatype lvl = LStr string | LNum int

datatype 'a slot = One 'a | Many "'a list"

datatype FamilyRow =
  FamilyRow (level: "lvl option") (id: "string option") (tag: "string option")
            (val: "string option") (props: "(string \<times> FamilyRow slot) list")

definition new_FamilyRow ::
  "lvl option \<Rightarrow> string option \<Rightarrow> string option \<Rightarrow> string option \<Rightarrow> FamilyRow" where
  "new_FamilyRow l i t v = FamilyRow l i t v []"

section \<open>formatLine\<close>

text \<open>
  \<^verbatim>\<open>formatLine(line)\<close>. The first token is the level. When there is no second token,
  \<^verbatim>\<open>tmp.charAt(0)\<close> throws on \<^verbatim>\<open>undefined\<close>; the \<^verbatim>\<open>catch\<close> logs it and the row is built
  with the level alone. A second token that starts with \<open>@\<close> is the id and the tag is the
  token after it (absent if there is none). If tokens remain they are joined into the
  value, and a value that matches the id pattern is moved into the id.
\<close>

definition formatLine :: "string \<Rightarrow> FamilyRow" where
  "formatLine line =
     (case split_sp line of
        [] \<Rightarrow> new_FamilyRow None None None None
      | lv # split1 \<Rightarrow>
          (case split1 of
             [] \<Rightarrow> new_FamilyRow (Some (LStr lv)) None None None
           | tmp # split2 \<Rightarrow>
               (let has_id = (take 1 tmp = ''@'');
                    id1 = (if has_id then Some tmp else None);
                    tag1 = (if has_id then (case split2 of [] \<Rightarrow> None | t # _ \<Rightarrow> Some t)
                            else Some tmp);
                    split3 = (if has_id then drop 1 split2 else split2)
                in if split3 \<noteq> [] then
                     (let v = join_sp split3
                      in if match_id v then new_FamilyRow (Some (LStr lv)) (Some v) tag1 None
                         else new_FamilyRow (Some (LStr lv)) id1 tag1 (Some v))
                   else new_FamilyRow (Some (LStr lv)) id1 tag1 None)))"

section \<open>Numbers read from strings\<close>

text \<open>
  The parser compares levels as numbers (\<^verbatim>\<open>parent_elem.level > element.level - 1\<close>), so the
  level token goes through JavaScript's string-to-number conversion. The model reads
  decimal integers with an optional minus sign; every other token (a fraction, an exponent,
  a hex literal, a text that is not a number) is reported as outside the model by
  \<open>parseLine\<close> below.
\<close>

definition digit_of :: "char \<Rightarrow> nat option" where
  "digit_of c = map_of (zip ''0123456789'' [0, 1, 2, 3, 4, 5, 6, 7, 8, 9]) c"

fun nat_of_digits :: "nat \<Rightarrow> string \<Rightarrow> nat option" where
  "nat_of_digits acc [] = Some acc"
| "nat_of_digits acc (c # cs) =
     (case digit_of c of None \<Rightarrow> None | Some d \<Rightarrow> nat_of_digits (10 * acc + d) cs)"

definition int_of_string :: "string \<Rightarrow> int option" where
  "int_of_string s =
     (case s of
        [] \<Rightarrow> None
      | c # cs \<Rightarrow>
          if c = CHR ''-'' then (if cs = [] then None else map_option (\<lambda>n. - int n) (nat_of_digits 0 cs))
          else map_option int (nat_of_digits 0 s))"

definition num_level :: "FamilyRow \<Rightarrow> int option" where
  "num_level r =
     (case level r of None \<Rightarrow> None | Some (LNum n) \<Rightarrow> Some n | Some (LStr s) \<Rightarrow> int_of_string s)"

section \<open>Properties of a record\<close>

text \<open>
  \<^verbatim>\<open>obj[key]\<close>, \<^verbatim>\<open>obj[key] = v\<close> (an existing key keeps its place, a new key goes last)
  and \<^verbatim>\<open>delete obj[key]\<close>.
\<close>

definition get_prop :: "FamilyRow \<Rightarrow> string \<Rightarrow> FamilyRow slot option" where
  "get_prop r k = map_of (props r) k"

fun set_assoc :: "('k \<times> 'v) list \<Rightarrow> 'k \<Rightarrow> 'v \<Rightarrow> ('k \<times> 'v) list" where
  "set_assoc [] k v = [(k, v)]"
| "set_assoc ((k', v') # kvs) k v =
     (if k' = k then (k, v) # kvs else (k', v') # set_assoc kvs k v)"

definition set_prop :: "FamilyRow \<Rightarrow> string \<Rightarrow> FamilyRow slot \<Rightarrow> FamilyRow" where
  "set_prop r k v = FamilyRow (level r) (id r) (tag r) (val r) (set_assoc (props r) k v)"

definition delete_prop :: "FamilyRow \<Rightarrow> string \<Rightarrow> FamilyRow" where
  "delete_prop r k =
     FamilyRow (level r) (id r) (tag r) (val r) (filter (\<lambda>kv. fst kv \<noteq> k) (props r))"

section \<open>parseLine and parse\<close>

datatype error = TypeError string | Unmodelled string

text \<open>
  Tags within the model: capital letters, digits and underscores, not starting with a digit.
  Such a tag cannot collide with a property the object already has (\<^verbatim>\<open>level\<close>,
  \<^verbatim>\<open>parent\<close>, \<^verbatim>\<open>toString\<close>, ... all contain a small letter) and is not an array index,
  so \<^verbatim>\<open>for (key in obj)\<close> visits the tags in insertion order.
\<close>

definition modelled_tag :: "string \<Rightarrow> bool" where
  "modelled_tag t \<longleftrightarrow>
     t \<noteq> [] \<and> hd t \<in> set ''ABCDEFGHIJKLMNOPQRSTUVWXYZ_'' \<and>
     (\<forall>c \<in> set t. c \<in> set ''ABCDEFGHIJKLMNOPQRSTUVWXYZ_0123456789'')"

definition relation_tags :: "string list" where
  "relation_tags = [''FAMS'', ''FAMC'', ''CHIL'', ''HUSB'', ''WIFE'']"

text \<open>
  The body of \<^verbatim>\<open>parseLine\<close> after the walk: store \<open>element\<close> under its tag in
  \<open>parent_elem\<close>. An Array gets the element pushed, a single row becomes a two-element
  Array, a relationship tag starts an Array, any other tag stores the row itself.
  A row without a tag is stored under the key \<^verbatim>\<open>undefined\<close>.
\<close>

definition attach :: "FamilyRow \<Rightarrow> FamilyRow \<Rightarrow> FamilyRow" where
  "attach parent_elem element =
     (let k = (case tag element of None \<Rightarrow> ''undefined'' | Some t \<Rightarrow> t)
      in case get_prop parent_elem k of
           Some (Many rs) \<Rightarrow> set_prop parent_elem k (Many (rs @ [element]))
         | Some (One r) \<Rightarrow> set_prop parent_elem k (Many [r, element])
         | None \<Rightarrow>
             if k \<in> set relation_tags then set_prop parent_elem k (Many [element])
             else set_prop parent_elem k (One element))"

text \<open>
  The parser state. In the program \<^verbatim>\<open>lastElement\<close> points at the newest row and
  \<^verbatim>\<open>.parent\<close> leads from it up to \<^verbatim>\<open>element_top\<close>; a row is a property of its parent from
  the moment it is created and receives its own children later, in place. The model keeps
  that chain as a stack, newest row first and \<^verbatim>\<open>element_top\<close> last, each row holding the
  children it has received so far except the one that is still on the stack above it. A row
  is written into its parent when the walk passes it. Between the creation of a row and
  that moment the parent receives no other child, so the slot it gets is the one the
  program gave it.

  \<open>level_gt p n\<close> is the loop test \<^verbatim>\<open>parent_elem.level > element.level - 1\<close> for an element
  of level \<open>n\<close>; a level that is not a number compares false. Walking above
  \<^verbatim>\<open>element_top\<close> reads \<^verbatim>\<open>undefined.level\<close> and throws.
\<close>

definition level_gt :: "FamilyRow \<Rightarrow> int \<Rightarrow> bool" where
  "level_gt p n = (case num_level p of None \<Rightarrow> False | Some m \<Rightarrow> m > n - 1)"

fun walk_up :: "int \<Rightarrow> FamilyRow list \<Rightarrow> error + FamilyRow list" where
  "walk_up n [] = Inl (TypeError ''parent_elem is undefined'')"
| "walk_up n [p] =
     (if level_gt p n then Inl (TypeError ''parent_elem is undefined'') else Inr [p])"
| "walk_up n (p # q # qs) =
     (if level_gt p n then walk_up n (attach q p # qs) else Inr (p # q # qs))"

definition parseLine :: "FamilyRow \<Rightarrow> FamilyRow list \<Rightarrow> error + FamilyRow list" where
  "parseLine element stack =
     (case num_level element of
        None \<Rightarrow> Inl (Unmodelled ''level'')
      | Some n \<Rightarrow>
          (case tag element of
             None \<Rightarrow> Inl (Unmodelled ''tag'')
           | Some t \<Rightarrow>
               if \<not> modelled_tag t then Inl (Unmodelled ''tag'')
               else (case walk_up n stack of
                       Inl e \<Rightarrow> Inl e
                     | Inr stack' \<Rightarrow> Inr (element # stack'))))"

text \<open>
  \<^verbatim>\<open>line.trim()\<close> strips white space and line terminators from both ends. Among the
  characters up to U+00FF these are tab, line feed, vertical tab, form feed, carriage
  return, space and the no-break space U+00A0. The class \<^verbatim>\<open>\s\<close> of a regular expression
  holds the same characters.
\<close>

definition is_space :: "char \<Rightarrow> bool" where
  "is_space c \<longleftrightarrow>
     c \<in> set [CHR 0x09, CHR 0x0A, CHR 0x0B, CHR 0x0C, CHR 0x0D, CHR '' '', CHR 0xA0]"

definition trim :: "string \<Rightarrow> string" where
  "trim s = rev (dropWhile is_space (rev (dropWhile is_space s)))"

fun parse_lines :: "string list \<Rightarrow> FamilyRow list \<Rightarrow> error + FamilyRow list" where
  "parse_lines [] stack = Inr stack"
| "parse_lines (line # lines) stack =
     (case parseLine (formatLine (trim line)) stack of
        Inl e \<Rightarrow> Inl e
      | Inr stack' \<Rightarrow> parse_lines lines stack')"

text \<open>When the lines are used up, every row still on the stack is already a property of
  its parent in the program; the model writes them in now and returns \<^verbatim>\<open>element_top\<close>.\<close>

fun close_all :: "FamilyRow list \<Rightarrow> FamilyRow" where
  "close_all [] = new_FamilyRow None None None None"
| "close_all [p] = p"
| "close_all (p # q # qs) = close_all (attach q p # qs)"

definition default_lines :: "string list" where
  "default_lines =
     [''0 HEAD'', ''1 SOUR Amal's gedcom editor JS'', ''2 WWW '', ''1 FILE Family Init'',
      ''1 DATE 08 Mar 2025'', ''1 DEST ANSTFILE'', ''1 GEDC'', ''2 VERS 5.5.1'',
      ''2 FORM LINEAGE-LINKED'', ''0 @I1@ INDI'', ''1 NAME '', ''0 TRLR'']"

text \<open>
  \<^verbatim>\<open>parse()\<close> reads \<^verbatim>\<open>document.dataUnparsed\<close>, here the argument; a missing and an empty
  sequence are both the empty list. The repository holds two copies of this function that
  differ in the built-in lines only, so the lines are a parameter: \<open>parse\<close> is the copy
  with \<open>default_lines\<close>, \<open>parse_starter\<close> the copy with \<open>starter_lines\<close>, whose
  source comment reads \<^verbatim>\<open>Default family tree: You, Your Father, Your Mother\<close>.
\<close>

definition starter_lines :: "string list" where
  "starter_lines =
     [''0 HEAD'', ''1 SOUR GEDCOM Family Tree Editor'', ''2 WWW https://github.com'',
      ''1 FILE Family Tree'', ''1 DATE 01 Feb 2026'', ''1 DEST ANSTFILE'', ''1 GEDC'',
      ''2 VERS 5.5.1'', ''2 FORM LINEAGE-LINKED'',
      ''0 @I1@ INDI'', ''1 NAME You'', ''1 SEX M'', ''1 FAMC @F1@'',
      ''0 @I2@ INDI'', ''1 NAME Your Father'', ''1 SEX M'', ''1 FAMS @F1@'',
      ''0 @I3@ INDI'', ''1 NAME Your Mother'', ''1 SEX F'', ''1 FAMS @F1@'',
      ''0 @F1@ FAM'', ''1 HUSB @I2@'', ''1 WIFE @I3@'', ''1 CHIL @I1@'', ''0 TRLR'']"

definition parse_with :: "string list \<Rightarrow> string list \<Rightarrow> error + FamilyRow" where
  "parse_with built_in dataUnparsed =
     (let lines = (if dataUnparsed = [] then built_in else dataUnparsed);
          kept = filter (\<lambda>line. line \<noteq> []) (map trim lines)
      in case parse_lines kept [formatLine ''-1 TOP''] of
           Inl e \<Rightarrow> Inl e
         | Inr stack \<Rightarrow> Inr (close_all stack))"

definition parse :: "string list \<Rightarrow> error + FamilyRow" where
  "parse dataUnparsed = parse_with default_lines dataUnparsed"

definition parse_starter :: "string list \<Rightarrow> error + FamilyRow" where
  "parse_starter dataUnparsed = parse_with starter_lines dataUnparsed"

section \<open>The graph index\<close>

text \<open>
  \<^verbatim>\<open>top.indviduals\<close> and \<^verbatim>\<open>top.families\<close> are JavaScript Maps from an id to the very
  record objects that sit in \<^verbatim>\<open>top.INDI\<close> and \<^verbatim>\<open>top.FAM\<close>. The model keeps each record
  once, in the tree, and a Map as the list of its keys in insertion order; \<open>map_get\<close>
  follows a key to the record it refers to, which is the last record with that id
  (\<^verbatim>\<open>Map.set\<close> on a key already present replaces the value and keeps the key's place).
  An id is optional, since a row built without one has \<^verbatim>\<open>id === undefined\<close>.
\<close>

type_synonym key = "string option"

record root =
  top :: FamilyRow
  indviduals :: "key list"
  families :: "key list"

definition rows_of :: "FamilyRow \<Rightarrow> string \<Rightarrow> FamilyRow list" where
  "rows_of r k = (case get_prop r k of None \<Rightarrow> [] | Some (One x) \<Rightarrow> [x] | Some (Many xs) \<Rightarrow> xs)"

definition map_set :: "key list \<Rightarrow> key \<Rightarrow> key list" where
  "map_set keys k = (if k \<in> set keys then keys else keys @ [k])"

definition map_get :: "key list \<Rightarrow> FamilyRow list \<Rightarrow> key \<Rightarrow> FamilyRow option" where
  "map_get keys rows k = (if k \<in> set keys then find (\<lambda>r. id r = k) (rev rows) else None)"

definition indviduals_get :: "root \<Rightarrow> key \<Rightarrow> FamilyRow option" where
  "indviduals_get g k = map_get (indviduals g) (rows_of (top g) ''INDI'') k"

definition families_get :: "root \<Rightarrow> key \<Rightarrow> FamilyRow option" where
  "families_get g k = map_get (families g) (rows_of (top g) ''FAM'') k"

text \<open>\<^verbatim>\<open>updateMapsForDisplay(top)\<close>: both Maps are rebuilt from \<^verbatim>\<open>top.INDI\<close> and
  \<^verbatim>\<open>top.FAM\<close>, whether they hold an Array or a single record.\<close>

definition updateMapsForDisplay :: "FamilyRow \<Rightarrow> root" where
  "updateMapsForDisplay t =
     \<lparr> top = t,
       indviduals = fold (\<lambda>indi keys. map_set keys (id indi)) (rows_of t ''INDI'') [],
       families = fold (\<lambda>fam keys. map_set keys (id fam)) (rows_of t ''FAM'') [] \<rparr>"

section \<open>Root discovery\<close>

text \<open>
  \<^verbatim>\<open>getIdFromNode(currentNode, tagName)\<close>. Reading a property of \<^verbatim>\<open>undefined\<close> throws, and so
  does reading \<^verbatim>\<open>.id\<close> of the first element of an empty Array (an Array is truthy even
  when empty). The result \<open>None\<close> is \<^verbatim>\<open>null\<close> or an \<^verbatim>\<open>undefined\<close> id.
\<close>

definition getIdFromNode :: "FamilyRow option \<Rightarrow> string \<Rightarrow> error + key" where
  "getIdFromNode currentNode tagName =
     (case currentNode of
        None \<Rightarrow> Inl (TypeError ''cannot read a property of undefined'')
      | Some n \<Rightarrow>
          (case get_prop n tagName of
             None \<Rightarrow> Inr None
           | Some (Many []) \<Rightarrow> Inl (TypeError ''cannot read id of undefined'')
           | Some (Many (r # _)) \<Rightarrow> Inr (id r)
           | Some (One r) \<Rightarrow> Inr (id r)))"

text \<open>\<open>truthy_id\<close> is the test \<^verbatim>\<open>if (parentFamily)\<close> on an id: \<^verbatim>\<open>null\<close>, \<^verbatim>\<open>undefined\<close> and
  the empty string are falsy.\<close>

definition truthy_id :: "key \<Rightarrow> bool" where
  "truthy_id k = (case k of None \<Rightarrow> False | Some s \<Rightarrow> s \<noteq> [])"

text \<open>One round of \<^verbatim>\<open>findParentOfParent\<close> for an individual: the value of
  \<^verbatim>\<open>currentNodeParent\<close> before the recursive call.\<close>

definition currentNodeParent :: "root \<Rightarrow> FamilyRow \<Rightarrow> error + FamilyRow option" where
  "currentNodeParent g currentNode =
     (case getIdFromNode (Some currentNode) ''FAMC'' of
        Inl e \<Rightarrow> Inl e
      | Inr parentFamily \<Rightarrow>
          if truthy_id parentFamily then
            (case getIdFromNode (families_get g parentFamily) ''HUSB'' of
               Inl e \<Rightarrow> Inl e
             | Inr parentId \<Rightarrow>
                 if truthy_id parentId then Inr (indviduals_get g parentId) else Inr None)
          else Inr None)"

text \<open>\<^verbatim>\<open>findParentOfParent\<close> calls itself without any bound, so the model is a partial
  function: \<open>None\<close> means that the call does not return.\<close>

partial_function (option) findParentOfParent ::
  "root \<Rightarrow> FamilyRow option \<Rightarrow> (error + FamilyRow option) option" where
  "findParentOfParent g currentNode =
     (case currentNode of
        None \<Rightarrow> Some (Inr None)
      | Some n \<Rightarrow>
          if tag n = Some ''INDI'' then
            (case currentNodeParent g n of
               Inl e \<Rightarrow> Some (Inl e)
             | Inr None \<Rightarrow> Some (Inr (Some n))
             | Inr (Some p) \<Rightarrow> findParentOfParent g (Some p))
          else Some (Inr None))"

declare findParentOfParent.simps [code]

text \<open>
  \<^verbatim>\<open>findRoot(currentFamilyRow)\<close> of the edit module climbs \<^verbatim>\<open>.parent\<close> while the level is
  the number \<open>-1\<close> (\<^verbatim>\<open>===\<close>, so the string \<^verbatim>\<open>"-1"\<close> that the parser stores does not count)
  and gives up with \<^verbatim>\<open>"ERROR"\<close> when \<^verbatim>\<open>maxStep\<close> runs out. The argument is the row followed
  by its chain of parents; after the last one \<^verbatim>\<open>iterator\<close> is \<^verbatim>\<open>undefined\<close> and the next test
  throws.
\<close>

datatype 'a found = Found 'a | ERROR | Thrown error

fun findRoot_loop :: "nat \<Rightarrow> FamilyRow list \<Rightarrow> FamilyRow found" where
  "findRoot_loop maxStep [] = Thrown (TypeError ''cannot read level of undefined'')"
| "findRoot_loop maxStep (iterator # parents) =
     (if level iterator = Some (LNum (- 1)) then
        (case maxStep of 0 \<Rightarrow> ERROR | Suc m \<Rightarrow> findRoot_loop m parents)
      else Found iterator)"

definition findRoot :: "FamilyRow list \<Rightarrow> FamilyRow found" where
  "findRoot chain = findRoot_loop 100 chain"

section \<open>The layout engine\<close>

text \<open>
  The layout works on the records held by the two Maps. Such a record is named by the Map
  it sits in and its key. \<^verbatim>\<open>visited\<close> and \<^verbatim>\<open>rowLevel\<close> are fields of these records;
  the state keeps them per node, together with the globals \<^verbatim>\<open>queueForNext\<close> and
  \<^verbatim>\<open>orderInLevel\<close> (a Map from a row number to the \<^verbatim>\<open>order\<close> array of a
  \<^verbatim>\<open>RowInGraph\<close>) and the messages passed to \<^verbatim>\<open>alert\<close>.
\<close>

datatype node = Indi key | Fam key

record layout =
  visited :: "node list"
  rowLevel :: "(node \<times> int) list"
  queueForNext :: "node list"
  orderInLevel :: "(int \<times> node list) list"
  alerts :: "string list"

definition NOT_SET :: int where "NOT_SET = - 1"
definition INIT_LEVEL :: int where "INIT_LEVEL = - 10"

definition rowLevel_of :: "layout \<Rightarrow> node \<Rightarrow> int" where
  "rowLevel_of st n = (case map_of (rowLevel st) n of None \<Rightarrow> NOT_SET | Some l \<Rightarrow> l)"

definition node_row :: "root \<Rightarrow> node \<Rightarrow> FamilyRow option" where
  "node_row g n = (case n of Indi k \<Rightarrow> indviduals_get g k | Fam k \<Rightarrow> families_get g k)"

datatype tag_type = FAM_type | INDI_type

definition resolve :: "root \<Rightarrow> tag_type \<Rightarrow> key \<Rightarrow> node option" where
  "resolve g tagType k =
     (case tagType of
        FAM_type \<Rightarrow> map_option (\<lambda>_. Fam k) (families_get g k)
      | INDI_type \<Rightarrow> map_option (\<lambda>_. Indi k) (indviduals_get g k))"

text \<open>The \<^verbatim>\<open>for\<close> loop of \<^verbatim>\<open>addElementsToQueue\<close>: each reference is looked up in its Map;
  a record that is found and not yet visited gets the row and joins \<^verbatim>\<open>elementsToAdd\<close>.
  A reference that does not resolve is passed over.\<close>

fun collect_elements ::
  "root \<Rightarrow> tag_type \<Rightarrow> int \<Rightarrow> FamilyRow list \<Rightarrow> layout \<Rightarrow> node list \<Rightarrow> layout \<times> node list" where
  "collect_elements g tagType lv [] st elementsToAdd = (st, elementsToAdd)"
| "collect_elements g tagType lv (e # es) st elementsToAdd =
     (case resolve g tagType (id e) of
        None \<Rightarrow> collect_elements g tagType lv es st elementsToAdd
      | Some n \<Rightarrow>
          if n \<in> set (visited st) then collect_elements g tagType lv es st elementsToAdd
          else collect_elements g tagType lv es
                 (st\<lparr>rowLevel := set_assoc (rowLevel st) n lv\<rparr>) (elementsToAdd @ [n]))"

text \<open>
  The sort compares \<^verbatim>\<open>a.ORDER.value - b.ORDER.value\<close> when both records have an
  \<^verbatim>\<open>ORDER\<close> and answers 0 otherwise. With no \<^verbatim>\<open>ORDER\<close> anywhere, or fewer than two
  elements, the (stable) sort changes nothing; with a whole number on every element it
  sorts by that number. Any other batch makes the comparison inconsistent and the outcome
  depends on the engine; the model reports it as outside its scope.
\<close>

datatype order_field = NoOrder | OrderNum int | OrderOther

definition order_of :: "root \<Rightarrow> node \<Rightarrow> order_field" where
  "order_of g n =
     (case node_row g n of
        None \<Rightarrow> NoOrder
      | Some r \<Rightarrow>
          (case get_prop r ''ORDER'' of
             None \<Rightarrow> NoOrder
           | Some (Many _) \<Rightarrow> OrderOther
           | Some (One f) \<Rightarrow>
               (case val f of
                  None \<Rightarrow> OrderOther
                | Some v \<Rightarrow> (case int_of_string v of None \<Rightarrow> OrderOther | Some i \<Rightarrow> OrderNum i))))"

definition order_num :: "order_field \<Rightarrow> int" where
  "order_num f = (case f of OrderNum i \<Rightarrow> i | _ \<Rightarrow> 0)"

definition sort_elements :: "root \<Rightarrow> node list \<Rightarrow> error + node list" where
  "sort_elements g elementsToAdd =
     (if length elementsToAdd < 2 \<or> list_all (\<lambda>n. order_of g n = NoOrder) elementsToAdd
      then Inr elementsToAdd
      else if list_all (\<lambda>n. order_of g n \<noteq> NoOrder \<and> order_of g n \<noteq> OrderOther) elementsToAdd
      then Inr (sort_key (\<lambda>n. order_num (order_of g n)) elementsToAdd)
      else Inl (Unmodelled ''sort with an inconsistent comparison''))"

text \<open>\<^verbatim>\<open>addElementsToQueue(elements, level, tagType, top)\<close>; \<open>elements\<close> is the value of a
  property such as \<^verbatim>\<open>element.HUSB\<close>: absent, one record, or an Array.\<close>

definition addElementsToQueue ::
  "root \<Rightarrow> FamilyRow slot option \<Rightarrow> int \<Rightarrow> tag_type \<Rightarrow> layout \<Rightarrow> error + layout" where
  "addElementsToQueue g elements lv tagType st =
     (case elements of
        None \<Rightarrow> Inr st
      | Some sl \<Rightarrow>
          (let es = (case sl of One e \<Rightarrow> [e] | Many xs \<Rightarrow> xs);
               (st1, elementsToAdd) = collect_elements g tagType lv es st []
           in case sort_elements g elementsToAdd of
                Inl e \<Rightarrow> Inl e
              | Inr batch \<Rightarrow> Inr (st1\<lparr>queueForNext := queueForNext st1 @ batch\<rparr>)))"

definition then_do :: "error + 'a \<Rightarrow> ('a \<Rightarrow> error + 'b) \<Rightarrow> error + 'b" where
  "then_do r f = (case r of Inl e \<Rightarrow> Inl e | Inr x \<Rightarrow> f x)"

text \<open>\<^verbatim>\<open>addNextElements(element, top)\<close>: a family sends its husbands and wives to its own
  row and its children one row down; an individual sends the families where it is a spouse
  to its own row and the families where it is a child one row up.\<close>

definition addNextElements :: "root \<Rightarrow> node \<Rightarrow> FamilyRow \<Rightarrow> layout \<Rightarrow> error + layout" where
  "addNextElements g element row st =
     (let lv = rowLevel_of st element
      in if tag row = Some ''FAM'' then
           then_do (addElementsToQueue g (get_prop row ''HUSB'') lv INDI_type st) (\<lambda>st1.
           then_do (addElementsToQueue g (get_prop row ''WIFE'') lv INDI_type st1) (\<lambda>st2.
           addElementsToQueue g (get_prop row ''CHIL'') (lv + 1) INDI_type st2))
         else if tag row = Some ''INDI'' then
           then_do (addElementsToQueue g (get_prop row ''FAMS'') lv FAM_type st) (\<lambda>st1.
           addElementsToQueue g (get_prop row ''FAMC'') (lv - 1) FAM_type st1)
         else Inr st)"

text \<open>\<^verbatim>\<open>getVisitedElement(elementList, top)\<close>: the first visited individual of the list. A
  single record has no \<^verbatim>\<open>length\<close>, so it counts as an empty list; an id that is not in
  the Map makes \<^verbatim>\<open>top.indviduals.get(elem.id).visited\<close> throw.\<close>

fun first_visited :: "root \<Rightarrow> layout \<Rightarrow> FamilyRow list \<Rightarrow> error + node option" where
  "first_visited g st [] = Inr None"
| "first_visited g st (elem # elems) =
     (case indviduals_get g (id elem) of
        None \<Rightarrow> Inl (TypeError ''cannot read visited of undefined'')
      | Some _ \<Rightarrow>
          if Indi (id elem) \<in> set (visited st) then Inr (Some (Indi (id elem)))
          else first_visited g st elems)"

definition getVisitedElement :: "root \<Rightarrow> layout \<Rightarrow> FamilyRow slot option \<Rightarrow> error + node option" where
  "getVisitedElement g st elementList =
     (case elementList of Some (Many elems) \<Rightarrow> first_visited g st elems | _ \<Rightarrow> Inr None)"

definition idInList :: "key \<Rightarrow> FamilyRow slot option \<Rightarrow> bool" where
  "idInList i elemList =
     (case elemList of Some (Many elems) \<Rightarrow> list_ex (\<lambda>elem. id elem = i) elems | _ \<Rightarrow> False)"

definition id_text :: "key \<Rightarrow> string" where
  "id_text k = (case k of None \<Rightarrow> ''undefined'' | Some s \<Rightarrow> s)"

text \<open>The loop over \<^verbatim>\<open>element.FAMS\<close> in \<^verbatim>\<open>calculateDisplayPositions\<close>. It returns
  \<^verbatim>\<open>(prevElement, nextElement)\<close> and the alerts raised for families that are not in the
  Map; after such an alert the loop goes on with the next entry.\<close>

fun scan_FAMS ::
  "root \<Rightarrow> layout \<Rightarrow> key \<Rightarrow> FamilyRow list \<Rightarrow> string list \<Rightarrow> (node option \<times> node option) \<times> string list" where
  "scan_FAMS g st i [] msgs = ((None, None), msgs)"
| "scan_FAMS g st i (elem # elems) msgs =
     (case families_get g (id elem) of
        None \<Rightarrow>
          scan_FAMS g st i elems
            (msgs @ [''Error in loaded data: No family node found in level 0 with id'' @ id_text (id elem)])
      | Some originalElem \<Rightarrow>
          if Fam (id elem) \<in> set (visited st) then
            (if idInList i (get_prop originalElem ''HUSB'') then ((None, Some (Fam (id elem))), msgs)
             else if idInList i (get_prop originalElem ''WIFE'') then ((Some (Fam (id elem)), None), msgs)
             else scan_FAMS g st i elems msgs)
          else scan_FAMS g st i elems msgs)"

text \<open>\<^verbatim>\<open>RowInGraph.addAfter\<close> and \<^verbatim>\<open>addBefore\<close>; \<open>None\<close> is a \<^verbatim>\<open>null\<close> anchor, which
  \<^verbatim>\<open>indexOf\<close> does not find.\<close>

fun insert_after :: "'a \<Rightarrow> 'a \<Rightarrow> 'a list \<Rightarrow> 'a list" where
  "insert_after new existing [] = [new]"
| "insert_after new existing (x # xs) =
     (if x = existing then x # new # xs else x # insert_after new existing xs)"

fun insert_before :: "'a \<Rightarrow> 'a \<Rightarrow> 'a list \<Rightarrow> 'a list" where
  "insert_before new existing [] = [new]"
| "insert_before new existing (x # xs) =
     (if x = existing then new # x # xs else x # insert_before new existing xs)"

definition addAfter :: "node \<Rightarrow> node option \<Rightarrow> node list \<Rightarrow> node list" where
  "addAfter newElement existing order =
     (case existing of None \<Rightarrow> order @ [newElement] | Some x \<Rightarrow> insert_after newElement x order)"

definition addBefore :: "node \<Rightarrow> node option \<Rightarrow> node list \<Rightarrow> node list" where
  "addBefore newElement existing order =
     (case existing of None \<Rightarrow> order @ [newElement] | Some x \<Rightarrow> insert_before newElement x order)"

text \<open>One pass of the \<^verbatim>\<open>while\<close> body of \<^verbatim>\<open>calculateDisplayPositions\<close> for an element that
  is not yet visited.\<close>

definition place :: "root \<Rightarrow> node \<Rightarrow> FamilyRow \<Rightarrow> int \<Rightarrow> layout \<Rightarrow> error + layout" where
  "place g element row lv st =
     then_do
       (if tag row = Some ''FAM'' then
          then_do (getVisitedElement g st (get_prop row ''HUSB'')) (\<lambda>prevElement.
          then_do (getVisitedElement g st (get_prop row ''WIFE'')) (\<lambda>nextElement.
          Inr ((prevElement, nextElement), [])))
        else if tag row = Some ''INDI'' then
          (case get_prop row ''FAMS'' of
             None \<Rightarrow> Inr ((None, None), [])
           | Some (One _) \<Rightarrow> Inl (TypeError ''element.FAMS is not iterable'')
           | Some (Many elems) \<Rightarrow> Inr (scan_FAMS g st (id row) elems []))
        else Inr ((None, None), []))
       (\<lambda>((prevElement, nextElement), msgs).
          let order = (case map_of (orderInLevel st) lv of None \<Rightarrow> [] | Some r \<Rightarrow> r);
              order' = (if prevElement \<noteq> None then addAfter element prevElement order
                        else addBefore element nextElement order)
          in Inr (st\<lparr>orderInLevel := set_assoc (orderInLevel st) lv order',
                     alerts := alerts st @ msgs\<rparr>))"

definition visit :: "root \<Rightarrow> node \<Rightarrow> layout \<Rightarrow> error + layout" where
  "visit g element st =
     (case node_row g element of
        None \<Rightarrow> Inl (Unmodelled ''queued element is not in the index'')
      | Some row \<Rightarrow>
          (let st1 = st\<lparr>visited := element # visited st\<rparr>;
               lv = rowLevel_of st1 element
           in then_do (addNextElements g element row st1) (place g element row lv)))"

subsection \<open>The queue loop\<close>

text \<open>The nodes of the two Maps. Whatever enters the queue during a run resolves in a Map,
  so it is one of these.\<close>

definition index_nodes :: "root \<Rightarrow> node set" where
  "index_nodes g = Indi ` set (indviduals g) \<union> Fam ` set (families g)"

lemma finite_index_nodes: "finite (index_nodes g)"
  by (simp add: index_nodes_def)

lemma resolve_index_nodes: "resolve g ty k = Some n \<Longrightarrow> n \<in> index_nodes g"
  by (auto simp: resolve_def index_nodes_def indviduals_get_def families_get_def map_get_def
           split: tag_type.splits if_splits)

lemma collect_elements_frame:
  "collect_elements g ty lv es st acc = (st', out) \<Longrightarrow>
     visited st' = visited st \<and> queueForNext st' = queueForNext st \<and>
     orderInLevel st' = orderInLevel st \<and> alerts st' = alerts st \<and>
     set out \<subseteq> set acc \<union> index_nodes g"
proof (induction es arbitrary: st acc)
  case Nil
  then show ?case by auto
next
  case (Cons e es)
  show ?case
  proof (cases "resolve g ty (id e)")
    case None
    with Cons.prems have "collect_elements g ty lv es st acc = (st', out)" by simp
    from Cons.IH [OF this] show ?thesis .
  next
    case (Some n)
    show ?thesis
    proof (cases "n \<in> set (visited st)")
      case True
      with Some Cons.prems have "collect_elements g ty lv es st acc = (st', out)" by simp
      from Cons.IH [OF this] show ?thesis .
    next
      case False
      with Some Cons.prems have
        "collect_elements g ty lv es (st\<lparr>rowLevel := set_assoc (rowLevel st) n lv\<rparr>) (acc @ [n]) = (st', out)"
        by simp
      from Cons.IH [OF this] resolve_index_nodes [OF Some] show ?thesis by auto
    qed
  qed
qed

lemma sort_elements_set: "sort_elements g xs = Inr ys \<Longrightarrow> set ys = set xs"
  by (auto simp: sort_elements_def split: if_splits)

lemma addElementsToQueue_frame:
  assumes "addElementsToQueue g els lv ty st = Inr st'"
  shows "visited st' = visited st \<and> orderInLevel st' = orderInLevel st \<and> alerts st' = alerts st \<and>
         set (queueForNext st') \<subseteq> set (queueForNext st) \<union> index_nodes g"
proof (cases els)
  case None
  with assms show ?thesis by (simp add: addElementsToQueue_def)
next
  case (Some sl)
  define es where "es = (case sl of One e \<Rightarrow> [e] | Many xs \<Rightarrow> xs)"
  obtain st1 out where c: "collect_elements g ty lv es st [] = (st1, out)"
    by (cases "collect_elements g ty lv es st []") auto
  from assms Some c obtain batch where b: "sort_elements g out = Inr batch"
    and st': "st' = st1\<lparr>queueForNext := queueForNext st1 @ batch\<rparr>"
    by (auto simp: addElementsToQueue_def es_def split: sum.splits)
  from collect_elements_frame [OF c] sort_elements_set [OF b] st'
  show ?thesis by auto
qed

lemma then_do_Inr: "then_do r f = Inr y \<Longrightarrow> \<exists>x. r = Inr x \<and> f x = Inr y"
  by (cases r) (auto simp: then_do_def)

lemma addNextElements_frame:
  assumes "addNextElements g element row st = Inr st'"
  shows "visited st' = visited st \<and> orderInLevel st' = orderInLevel st \<and> alerts st' = alerts st \<and>
         set (queueForNext st') \<subseteq> set (queueForNext st) \<union> index_nodes g"
proof -
  consider (fam) "tag row = Some ''FAM''" | (indi) "tag row \<noteq> Some ''FAM''" "tag row = Some ''INDI''"
    | (other) "tag row \<noteq> Some ''FAM''" "tag row \<noteq> Some ''INDI''" by blast
  then show ?thesis
  proof cases
    case fam
    with assms obtain st1 st2 where
      "addElementsToQueue g (get_prop row ''HUSB'') (rowLevel_of st element) INDI_type st = Inr st1"
      "addElementsToQueue g (get_prop row ''WIFE'') (rowLevel_of st element) INDI_type st1 = Inr st2"
      "addElementsToQueue g (get_prop row ''CHIL'') (rowLevel_of st element + 1) INDI_type st2 = Inr st'"
      by (auto simp: addNextElements_def Let_def dest!: then_do_Inr)
    from this [THEN addElementsToQueue_frame] show ?thesis by auto
  next
    case indi
    with assms obtain st1 where
      "addElementsToQueue g (get_prop row ''FAMS'') (rowLevel_of st element) FAM_type st = Inr st1"
      "addElementsToQueue g (get_prop row ''FAMC'') (rowLevel_of st element - 1) FAM_type st1 = Inr st'"
      by (auto simp: addNextElements_def Let_def dest!: then_do_Inr)
    from this [THEN addElementsToQueue_frame] show ?thesis by auto
  next
    case other
    with assms show ?thesis by (simp add: addNextElements_def Let_def)
  qed
qed

lemma place_frame:
  "place g element row lv st = Inr st' \<Longrightarrow>
     visited st' = visited st \<and> queueForNext st' = queueForNext st \<and> rowLevel st' = rowLevel st"
  by (auto simp: place_def Let_def dest!: then_do_Inr split: prod.splits)

lemma visit_frame:
  assumes "visit g element st = Inr st'"
  shows "visited st' = element # visited st \<and>
         set (queueForNext st') \<subseteq> set (queueForNext st) \<union> index_nodes g"
proof -
  from assms obtain row st2 where
    a: "addNextElements g element row (st\<lparr>visited := element # visited st\<rparr>) = Inr st2"
    and p: "place g element row (rowLevel_of (st\<lparr>visited := element # visited st\<rparr>) element) st2 = Inr st'"
    by (auto simp: visit_def Let_def dest!: then_do_Inr split: option.splits)
  from addNextElements_frame [OF a] place_frame [OF p] show ?thesis by auto
qed

text \<open>
  The \<^verbatim>\<open>while (queueForNext.length > 0)\<close> loop. An element that is already visited is
  dropped; any other element becomes visited, so the set of unvisited nodes (of the Maps
  and of the queue) shrinks at each such round, and the queue shrinks in the other rounds.
\<close>

definition unvisited :: "root \<Rightarrow> layout \<Rightarrow> node set" where
  "unvisited g st = (index_nodes g \<union> set (queueForNext st)) - set (visited st)"

lemma finite_unvisited: "finite (unvisited g st)"
  by (simp add: unvisited_def finite_index_nodes)

function calculate_loop :: "root \<Rightarrow> layout \<Rightarrow> error + layout" where
  "calculate_loop g st =
     (case queueForNext st of
        [] \<Rightarrow> Inr st
      | element # rest \<Rightarrow>
          if element \<in> set (visited st) then calculate_loop g (st\<lparr>queueForNext := rest\<rparr>)
          else (case visit g element (st\<lparr>queueForNext := rest\<rparr>) of
                  Inl e \<Rightarrow> Inl e
                | Inr st' \<Rightarrow> calculate_loop g st'))"
  by pat_completeness auto
termination
proof (relation "measures [\<lambda>(g, st). card (unvisited g st), \<lambda>(g, st). length (queueForNext st)]")
  show "wf (measures [\<lambda>(g, st). card (unvisited g st), \<lambda>(g, st). length (queueForNext st)])"
    by simp
next
  fix g :: root and st :: layout and element rest
  assume q: "queueForNext st = element # rest" and v: "element \<in> set (visited st)"
  have "unvisited g (st\<lparr>queueForNext := rest\<rparr>) = unvisited g st"
    using q v by (auto simp: unvisited_def)
  then show "((g, st\<lparr>queueForNext := rest\<rparr>), (g, st))
      \<in> measures [\<lambda>(g, st). card (unvisited g st), \<lambda>(g, st). length (queueForNext st)]"
    using q by simp
next
  fix g :: root and st :: layout and element rest st'
  assume q: "queueForNext st = element # rest" and v: "element \<notin> set (visited st)"
    and vis: "visit g element (st\<lparr>queueForNext := rest\<rparr>) = Inr st'"
  from visit_frame [OF vis] have
    v': "visited st' = element # visited st" and
    q': "set (queueForNext st') \<subseteq> set rest \<union> index_nodes g" by auto
  have "unvisited g st' \<subseteq> unvisited g st - {element}"
    using q q' v' by (auto simp: unvisited_def)
  moreover have "element \<in> unvisited g st"
    using q v by (simp add: unvisited_def)
  ultimately have "unvisited g st' \<subset> unvisited g st" by blast
  then have "card (unvisited g st') < card (unvisited g st)"
    by (rule psubset_card_mono [OF finite_unvisited])
  then show "((g, st'), (g, st))
      \<in> measures [\<lambda>(g, st). card (unvisited g st), \<lambda>(g, st). length (queueForNext st)]"
    by simp
qed

declare calculate_loop.simps [simp del]

text \<open>
  \<^verbatim>\<open>resetRowLevel()\<close>: the smallest row number is subtracted from the \<^verbatim>\<open>rowLevel\<close> of
  every placed element and from every key of \<^verbatim>\<open>orderInLevel\<close>. With no row at all
  \<^verbatim>\<open>Math.min()\<close> is \<^verbatim>\<open>Infinity\<close> and nothing is done.
\<close>

definition resetRowLevel :: "layout \<Rightarrow> layout" where
  "resetRowLevel st =
     (case map fst (orderInLevel st) of
        [] \<Rightarrow> st
      | k # ks \<Rightarrow>
          (let m = fold min ks k
           in st\<lparr>rowLevel :=
                   fold (\<lambda>element rl.
                           set_assoc rl element
                             ((case map_of rl element of None \<Rightarrow> NOT_SET | Some l \<Rightarrow> l) - m))
                        (concat (map snd (orderInLevel st))) (rowLevel st),
                 orderInLevel := map (\<lambda>(key, order). (key - m, order)) (orderInLevel st)\<rparr>))"

text \<open>\<^verbatim>\<open>calculateDisplayPositions(top)\<close>: \<^verbatim>\<open>resetAndInitAll\<close> empties \<^verbatim>\<open>orderInLevel\<close> and
  clears every \<^verbatim>\<open>visited\<close> flag, then the queue is drained and the rows are renumbered.\<close>

definition calculateDisplayPositions :: "root \<Rightarrow> layout \<Rightarrow> error + layout" where
  "calculateDisplayPositions g st =
     (case calculate_loop g (st\<lparr>orderInLevel := [], visited := []\<rparr>) of
        Inl e \<Rightarrow> Inl e
      | Inr st' \<Rightarrow> Inr (resetRowLevel st'))"

definition initial_layout :: layout where
  "initial_layout = \<lparr> visited = [], rowLevel = [], queueForNext = [], orderInLevel = [], alerts = [] \<rparr>"

text \<open>
  \<^verbatim>\<open>display()\<close> on a fresh page: \<^verbatim>\<open>document.dataParsed\<close> is not set, so the lines of
  \<^verbatim>\<open>document.dataUnparsed\<close> are parsed. The walk starts at the first value of the
  individuals Map. The result is the final state, whose \<open>orderInLevel\<close> is the returned
  Map; \<open>None\<close> means that root discovery does not return.
\<close>

definition start_layout :: "FamilyRow option \<Rightarrow> layout" where
  "start_layout firstOne =
     (case firstOne of
        Some r \<Rightarrow>
          initial_layout\<lparr>rowLevel := [(Indi (id r), INIT_LEVEL)], queueForNext := [Indi (id r)]\<rparr>
      | None \<Rightarrow> initial_layout\<lparr>alerts := [''Nothing to display'']\<rparr>)"

definition display_root :: "root \<Rightarrow> (error + layout) option" where
  "display_root g =
     (case findParentOfParent g
             (case indviduals g of [] \<Rightarrow> None | k # _ \<Rightarrow> indviduals_get g k) of
        None \<Rightarrow> None
      | Some (Inl e) \<Rightarrow> Some (Inl e)
      | Some (Inr firstOne) \<Rightarrow> Some (calculateDisplayPositions g (start_layout firstOne)))"

definition display :: "string list \<Rightarrow> (error + layout) option" where
  "display dataUnparsed =
     (case parse dataUnparsed of
        Inl e \<Rightarrow> Some (Inl e)
      | Inr t \<Rightarrow> display_root (updateMapsForDisplay t))"

definition scenario_A :: "string list" where
  "scenario_A =
     [''0 @I1@ INDI'', ''1 NAME You'', ''1 SEX M'', ''1 FAMC @F1@'',
      ''0 @I2@ INDI'', ''1 NAME Father'', ''1 SEX M'', ''1 FAMS @F1@'',
      ''0 @I3@ INDI'', ''1 NAME Mother'', ''1 SEX F'', ''1 FAMS @F1@'',
      ''0 @F1@ FAM'', ''1 HUSB @I2@'', ''1 WIFE @I3@'', ''1 CHIL @I1@'']"

section \<open>Facts about the string functions\<close>

lemma split_sp_nonempty: "split_sp s \<noteq> []"
  by (induction s) (auto split: list.splits)

lemma join_split_sp: "join_sp (split_sp s) = s"
proof (induction s)
  case Nil
  show ?case by simp
next
  case (Cons c cs)
  show ?case
  proof (cases "c = CHR '' ''")
    case True
    obtain w ws where sp: "split_sp cs = w # ws"
      using split_sp_nonempty [of cs] by (cases "split_sp cs") auto
    from True sp Cons show ?thesis by simp
  next
    case False
    obtain w ws where sp: "split_sp cs = w # ws"
      using split_sp_nonempty [of cs] by (cases "split_sp cs") auto
    from False sp Cons show ?thesis by (cases ws) auto
  qed
qed

subsection \<open>The scanner is the regular expression\<close>

lemma match_in_body_iff: "match_in_body s \<longleftrightarrow> CHR ''@'' \<in> set s"
  by (induction s) auto

lemma match_after_at_in_body: "match_after_at s \<Longrightarrow> CHR ''@'' \<in> set s"
  by (induction s) (auto simp: match_in_body_iff split: if_splits)

lemma match_id_after_at: "match_id s \<Longrightarrow> match_after_at s"
proof (induction s)
  case Nil then show ?case by simp
next
  case (Cons c cs)
  show ?case
  proof (cases "c = CHR ''@''")
    case True with Cons.prems show ?thesis by simp
  next
    case False
    with Cons.prems have "match_id cs" by simp
    then have "match_after_at cs" by (rule Cons.IH)
    then have "CHR ''@'' \<in> set cs" by (rule match_after_at_in_body)
    with False show ?thesis by (simp add: match_in_body_iff)
  qed
qed

lemma match_id_append: "match_id w \<Longrightarrow> match_id (pre @ w)"
  by (induction pre) (auto dest: match_id_after_at)

lemma contains_id_marker_Cons: "contains_id_marker w \<Longrightarrow> contains_id_marker (c # w)"
  unfolding contains_id_marker_def
  by (metis append_Cons)

lemma match_after_at_contains: "match_after_at s \<Longrightarrow> contains_id_marker (CHR ''@'' # s)"
proof (induction s)
  case Nil then show ?case by simp
next
  case (Cons c cs)
  show ?case
  proof (cases "c = CHR ''@''")
    case True
    with Cons show ?thesis by (simp add: contains_id_marker_Cons)
  next
    case False
    with Cons.prems have "CHR ''@'' \<in> set cs" by (simp add: match_in_body_iff)
    then obtain mid post where cs: "cs = mid @ CHR ''@'' # post" and mid: "CHR ''@'' \<notin> set mid"
      by (auto dest: split_list_first)
    have "CHR ''@'' # c # cs = [] @ CHR ''@'' # (c # mid) @ CHR ''@'' # post"
      using cs by simp
    moreover have "c # mid \<noteq> []" "CHR ''@'' \<notin> set (c # mid)"
      using False mid by auto
    ultimately show ?thesis unfolding contains_id_marker_def by blast
  qed
qed

lemma match_id_contains: "match_id s \<Longrightarrow> contains_id_marker s"
  by (induction s) (auto simp: contains_id_marker_Cons match_after_at_contains split: if_splits)

lemma contains_match_id: 
  assumes "contains_id_marker s" shows "match_id s"
proof -
  from assms obtain pre mid post where s: "s = pre @ CHR ''@'' # mid @ CHR ''@'' # post"
    and mid: "mid \<noteq> []" "CHR ''@'' \<notin> set mid"
    unfolding contains_id_marker_def by blast
  from mid obtain m ms where m: "mid = m # ms" "m \<noteq> CHR ''@''" by (cases mid) auto
  have "match_id (CHR ''@'' # mid @ CHR ''@'' # post)"
    using m by (simp add: match_in_body_iff)
  then show ?thesis unfolding s by (rule match_id_append)
qed

lemma match_id_iff: "match_id s \<longleftrightarrow> contains_id_marker s"
  using match_id_contains contains_match_id by blast

section \<open>Claims about the parser\<close>

text \<open>
  Claim C10, as stated: a second token that starts with \<open>@\<close> becomes the id, and only
  otherwise is a value that matches the id pattern taken as the id. The line
  \<^verbatim>\<open>0 @I1@ INDI @F1@\<close> has such a second token, yet \<open>formatLine\<close> gives the row the id
  \<^verbatim>\<open>@F1@\<close>, taken from the value.
\<close>

theorem formatLine_second_token_counterexample:
  "take 1 (split_sp ''0 @I1@ INDI @F1@'' ! 1) = ''@'' \<and>
   split_sp ''0 @I1@ INDI @F1@'' ! 1 = ''@I1@'' \<and>
   id (formatLine ''0 @I1@ INDI @F1@'') = Some ''@F1@'' \<and>
   id (formatLine ''0 @I1@ INDI @F1@'') \<noteq> Some ''@I1@'' \<and>
   val (formatLine ''0 @I1@ INDI @F1@'') = None"
  by (simp add: formatLine_def new_FamilyRow_def)

text \<open>
  Claim C10, amended: for every line with at least two tokens, let the value tokens be the
  tokens after the tag (the tag is the third token when the second one starts with \<open>@\<close>,
  else the second). If there are value tokens and their space-joined text contains
  \<open>@\<close>, one or more characters other than \<open>@\<close>, and \<open>@\<close>, anywhere in it, then that
  text is the id, whatever the second token was, and the value is absent. Otherwise the id
  is the second token if it starts with \<open>@\<close> and absent if not, and the value is the
  joined text, absent when there are no value tokens.
\<close>

theorem formatLine_value_check_wins:
  assumes "split_sp line = lv # tmp # rest"
  shows "(let toks = (if take 1 tmp = ''@'' then drop 1 rest else rest)
          in if toks \<noteq> [] \<and> contains_id_marker (join_sp toks)
             then id (formatLine line) = Some (join_sp toks) \<and> val (formatLine line) = None
             else id (formatLine line) = (if take 1 tmp = ''@'' then Some tmp else None) \<and>
                  val (formatLine line) = (if toks = [] then None else Some (join_sp toks)))"
  using assms
  by (simp add: formatLine_def new_FamilyRow_def Let_def match_id_iff)

theorem formatLine_value_check_wins_witness:
  "split_sp ''0 @I1@ INDI @F1@'' = [''0'', ''@I1@'', ''INDI'', ''@F1@''] \<and>
   contains_id_marker ''@F1@'' \<and>
   id (formatLine ''0 @I1@ INDI @F1@'') = Some ''@F1@'' \<and>
   val (formatLine ''0 @I1@ INDI @F1@'') = None"
proof -
  have sp: "split_sp ''0 @I1@ INDI @F1@'' = ''0'' # ''@I1@'' # [''INDI'', ''@F1@'']"
    by simp
  have m: "contains_id_marker ''@F1@''"
    by (rule match_id_contains) simp
  from formatLine_value_check_wins [OF sp] m sp show ?thesis
    by (simp add: Let_def)
qed

text \<open>
  The copy of \<open>parse\<close> in \<^verbatim>\<open>gedcom_import.js\<close> holds an older list of built-in lines. Its
  tree has \<^verbatim>\<open>HEAD\<close>, the single individual \<^verbatim>\<open>@I1@\<close> with a \<^verbatim>\<open>NAME\<close> that has no value,
  and \<^verbatim>\<open>TRLR\<close>: one person and no family.
\<close>

lemma parse_no_input_one_person:
  "parse [] =
     Inr (FamilyRow (Some (LStr ''-1'')) None (Some ''TOP'') None
       [(''HEAD'', One (FamilyRow (Some (LStr ''0'')) None (Some ''HEAD'') None
           [(''SOUR'', One (FamilyRow (Some (LStr ''1'')) None (Some ''SOUR'')
                (Some ''Amal's gedcom editor JS'')
                [(''WWW'', One (FamilyRow (Some (LStr ''2'')) None (Some ''WWW'') None []))])),
            (''FILE'', One (FamilyRow (Some (LStr ''1'')) None (Some ''FILE'') (Some ''Family Init'') [])),
            (''DATE'', One (FamilyRow (Some (LStr ''1'')) None (Some ''DATE'') (Some ''08 Mar 2025'') [])),
            (''DEST'', One (FamilyRow (Some (LStr ''1'')) None (Some ''DEST'') (Some ''ANSTFILE'') [])),
            (''GEDC'', One (FamilyRow (Some (LStr ''1'')) None (Some ''GEDC'') None
                [(''VERS'', One (FamilyRow (Some (LStr ''2'')) None (Some ''VERS'') (Some ''5.5.1'') [])),
                 (''FORM'', One (FamilyRow (Some (LStr ''2'')) None (Some ''FORM'')
                     (Some ''LINEAGE-LINKED'') []))]))])),
        (''INDI'', One (FamilyRow (Some (LStr ''0'')) (Some ''@I1@'') (Some ''INDI'') None
           [(''NAME'', One (FamilyRow (Some (LStr ''1'')) None (Some ''NAME'') None []))])),
        (''TRLR'', One (FamilyRow (Some (LStr ''0'')) None (Some ''TRLR'') None []))])"
  by code_simp

text \<open>
  Claim C9: the current copy of \<open>parse\<close>, the one whose built-in lines are commented
  \<^verbatim>\<open>Default family tree: You, Your Father, Your Mother\<close>, called without input lines (a
  missing or an empty sequence) returns a tree with the three individuals \<^verbatim>\<open>@I1@\<close>,
  \<^verbatim>\<open>@I2@\<close>, \<^verbatim>\<open>@I3@\<close> and the one family \<^verbatim>\<open>@F1@\<close>. The family has \<^verbatim>\<open>@I2@\<close> as husband,
  \<^verbatim>\<open>@I3@\<close> as wife and \<^verbatim>\<open>@I1@\<close> as child; \<^verbatim>\<open>@I1@\<close> names the family under \<^verbatim>\<open>FAMC\<close> and
  the two parents name it under \<^verbatim>\<open>FAMS\<close>. The layout of that tree raises no alert and
  puts the parents and the family in row 0 and \<^verbatim>\<open>@I1@\<close> in row 1.
\<close>

theorem parse_starter_no_input:
  "(case parse_starter [] of
      Inl e \<Rightarrow> False
    | Inr t \<Rightarrow>
        map id (rows_of t ''INDI'') = [Some ''@I1@'', Some ''@I2@'', Some ''@I3@''] \<and>
        map (\<lambda>p. (map id (rows_of p ''FAMC''), map id (rows_of p ''FAMS''))) (rows_of t ''INDI'') =
          [([Some ''@F1@''], []), ([], [Some ''@F1@'']), ([], [Some ''@F1@''])] \<and>
        map id (rows_of t ''FAM'') = [Some ''@F1@''] \<and>
        map (\<lambda>f. (map id (rows_of f ''HUSB''), map id (rows_of f ''WIFE''), map id (rows_of f ''CHIL'')))
            (rows_of t ''FAM'') = [([Some ''@I2@''], [Some ''@I3@''], [Some ''@I1@''])] \<and>
        display_root (updateMapsForDisplay t) =
          Some (Inr \<lparr> visited = [Indi (Some ''@I1@''), Indi (Some ''@I3@''), Fam (Some ''@F1@''),
                                  Indi (Some ''@I2@'')],
                       rowLevel = [(Indi (Some ''@I2@''), 0), (Fam (Some ''@F1@''), 0),
                                   (Indi (Some ''@I3@''), 0), (Indi (Some ''@I1@''), 1)],
                       queueForNext = [],
                       orderInLevel = [(0, [Indi (Some ''@I2@''), Fam (Some ''@F1@''), Indi (Some ''@I3@'')]),
                                       (1, [Indi (Some ''@I1@'')])],
                       alerts = [] \<rparr>))"
  by code_simp

section \<open>Claims about the layout\<close>

text \<open>
  Claim C1: for the sixteen lines of Scenario A, parsing and running \<open>display\<close> returns a
  row map that holds the individual \<^verbatim>\<open>@I2@\<close>, the family \<^verbatim>\<open>@F1@\<close> and the individual
  \<^verbatim>\<open>@I3@\<close> in row 0 and the individual \<^verbatim>\<open>@I1@\<close> in row 1, and no alert is raised.
\<close>

theorem display_scenario_A:
  "display scenario_A =
     Some (Inr \<lparr> visited = [Indi (Some ''@I1@''), Indi (Some ''@I3@''), Fam (Some ''@F1@''),
                             Indi (Some ''@I2@'')],
                  rowLevel = [(Indi (Some ''@I2@''), 0), (Fam (Some ''@F1@''), 0),
                              (Indi (Some ''@I3@''), 0), (Indi (Some ''@I1@''), 1)],
                  queueForNext = [],
                  orderInLevel = [(0, [Indi (Some ''@I2@''), Fam (Some ''@F1@''), Indi (Some ''@I3@'')]),
                                  (1, [Indi (Some ''@I1@'')])],
                  alerts = [] \<rparr>)"
  by code_simp

section \<open>Claims about root discovery\<close>

text \<open>
  \<open>father g n\<close> is the record the walk moves to from \<open>n\<close>, if it moves at all:
  \<^verbatim>\<open>currentNodeParent\<close> of an \<^verbatim>\<open>INDI\<close> record. \<open>walk k g n\<close> follows it \<open>k\<close> times and is
  \<open>None\<close> when the walk has stopped before that, at a record without a father or at a
  lookup that throws.
\<close>

definition father :: "root \<Rightarrow> FamilyRow \<Rightarrow> FamilyRow option" where
  "father g n =
     (if tag n = Some ''INDI'' then
        (case currentNodeParent g n of Inr (Some p) \<Rightarrow> Some p | _ \<Rightarrow> None)
      else None)"

fun walk :: "nat \<Rightarrow> root \<Rightarrow> FamilyRow \<Rightarrow> FamilyRow option" where
  "walk 0 g n = Some n"
| "walk (Suc k) g n = (case father g n of None \<Rightarrow> None | Some p \<Rightarrow> walk k g p)"

text \<open>Two individuals, each the husband of the family in which the other is a child.\<close>

definition cyclic_lines :: "string list" where
  "cyclic_lines =
     [''0 @I1@ INDI'', ''1 FAMC @F1@'', ''0 @I2@ INDI'', ''1 FAMC @F2@'',
      ''0 @F1@ FAM'', ''1 HUSB @I2@'', ''1 CHIL @I1@'',
      ''0 @F2@ FAM'', ''1 HUSB @I1@'', ''1 CHIL @I2@'']"

definition lines_root :: "string list \<Rightarrow> root" where
  "lines_root ls =
     (case parse ls of
        Inr t \<Rightarrow> updateMapsForDisplay t
      | Inl e \<Rightarrow> updateMapsForDisplay (new_FamilyRow None None None None))"

definition cyclic_I1 :: FamilyRow where
  "cyclic_I1 = FamilyRow (Some (LStr ''0'')) (Some ''@I1@'') (Some ''INDI'') None
     [(''FAMC'', Many [FamilyRow (Some (LStr ''1'')) (Some ''@F1@'') (Some ''FAMC'') None []])]"

definition cyclic_I2 :: FamilyRow where
  "cyclic_I2 = FamilyRow (Some (LStr ''0'')) (Some ''@I2@'') (Some ''INDI'') None
     [(''FAMC'', Many [FamilyRow (Some (LStr ''1'')) (Some ''@F2@'') (Some ''FAMC'') None []])]"

definition scenario_A_I1 :: FamilyRow where
  "scenario_A_I1 = FamilyRow (Some (LStr ''0'')) (Some ''@I1@'') (Some ''INDI'') None
     [(''NAME'', One (FamilyRow (Some (LStr ''1'')) None (Some ''NAME'') (Some ''You'') [])),
      (''SEX'', One (FamilyRow (Some (LStr ''1'')) None (Some ''SEX'') (Some ''M'') [])),
      (''FAMC'', Many [FamilyRow (Some (LStr ''1'')) (Some ''@F1@'') (Some ''FAMC'') None []])]"

lemma findParentOfParent_father_None:
  "father g n = None \<Longrightarrow> \<exists>r. findParentOfParent g (Some n) = Some r"
  by (subst findParentOfParent.simps)
     (auto simp: father_def split: if_splits sum.splits option.splits)

lemma findParentOfParent_father_Some:
  "father g n = Some p \<Longrightarrow> findParentOfParent g (Some n) = findParentOfParent g (Some p)"
  by (subst findParentOfParent.simps)
     (auto simp: father_def split: if_splits sum.splits option.splits)

lemma walk_ends_returns:
  "walk k g n = None \<Longrightarrow> \<exists>r. findParentOfParent g (Some n) = Some r"
proof (induction k arbitrary: n)
  case 0
  then show ?case by simp
next
  case (Suc k)
  show ?case
  proof (cases "father g n")
    case None
    then show ?thesis by (rule findParentOfParent_father_None)
  next
    case (Some p)
    with Suc.prems have "walk k g p = None" by simp
    then have "\<exists>r. findParentOfParent g (Some p) = Some r" by (rule Suc.IH)
    with findParentOfParent_father_Some [OF Some] show ?thesis by simp
  qed
qed

lemma returns_walk_ends:
  assumes "findParentOfParent g cur = Some y"
  shows "\<forall>n. cur = Some n \<longrightarrow> (\<exists>k. walk k g n = None)"
proof (rule findParentOfParent.raw_induct
         [where P = "\<lambda>g cur y. \<forall>n. cur = Some n \<longrightarrow> (\<exists>k. walk k g n = None)", OF _ assms])
  fix f :: "root \<Rightarrow> FamilyRow option \<Rightarrow> (error + FamilyRow option) option"
  fix g cur y
  assume IH: "\<And>g cur y. f g cur = Some y \<Longrightarrow> \<forall>n. cur = Some n \<longrightarrow> (\<exists>k. walk k g n = None)"
  assume body: "(case cur of
        None \<Rightarrow> Some (Inr None)
      | Some n \<Rightarrow>
          if tag n = Some ''INDI'' then
            (case currentNodeParent g n of
               Inl e \<Rightarrow> Some (Inl e)
             | Inr None \<Rightarrow> Some (Inr (Some n))
             | Inr (Some p) \<Rightarrow> f g (Some p))
          else Some (Inr None)) = Some y"
  show "\<forall>n. cur = Some n \<longrightarrow> (\<exists>k. walk k g n = None)"
  proof (intro allI impI)
    fix n assume cur: "cur = Some n"
    show "\<exists>k. walk k g n = None"
    proof (cases "father g n")
      case None
      then have "walk (Suc 0) g n = None" by simp
      then show ?thesis by blast
    next
      case (Some p)
      then have "f g (Some p) = Some y"
        using body cur by (auto simp: father_def split: if_splits sum.splits option.splits)
      from IH [OF this] obtain k where "walk k g p = None" by blast
      with Some have "walk (Suc k) g n = None" by simp
      then show ?thesis by blast
    qed
  qed
qed

lemma findRoot_loop_ERROR:
  "findRoot_loop m chain = ERROR \<longleftrightarrow>
     m < length chain \<and> (\<forall>r \<in> set (take (Suc m) chain). level r = Some (LNum (- 1)))"
proof (induction m chain rule: findRoot_loop.induct)
  case (1 maxStep)
  show ?case by simp
next
  case (2 maxStep iterator parents)
  show ?case
  proof (cases maxStep)
    case 0
    then show ?thesis by simp
  next
    case (Suc m)
    with 2 show ?thesis by auto
  qed
qed

lemma walk_cyclic: "walk k (lines_root cyclic_lines) cyclic_I1 \<noteq> None \<and>
                    walk k (lines_root cyclic_lines) cyclic_I2 \<noteq> None"
proof (induction k)
  case 0
  show ?case by simp
next
  case (Suc k)
  have f1: "father (lines_root cyclic_lines) cyclic_I1 = Some cyclic_I2" by code_simp
  have f2: "father (lines_root cyclic_lines) cyclic_I2 = Some cyclic_I1" by code_simp
  from Suc f1 f2 show ?case by simp
qed

text \<open>
  Claim C2, as stated: root discovery stops on every input, after at most 100 steps, with an
  \<^verbatim>\<open>"ERROR"\<close> sentinel on a cyclic chain. On the cyclic lines above the walk started by
  \<open>display\<close> at the first individual never comes to a return: each call of
  \<^verbatim>\<open>findParentOfParent\<close> makes the next one. (An engine ends such a recursion only by
  running out of stack; no sentinel is produced.)
\<close>

theorem display_cyclic_counterexample: "display cyclic_lines = None"
proof -
  have p: "\<not> isl (parse cyclic_lines)" by code_simp
  then obtain t where t: "parse cyclic_lines = Inr t" by (cases "parse cyclic_lines") auto
  then have g: "updateMapsForDisplay t = lines_root cyclic_lines" by (simp add: lines_root_def)
  have first: "(case indviduals (lines_root cyclic_lines) of [] \<Rightarrow> None
                | k # _ \<Rightarrow> indviduals_get (lines_root cyclic_lines) k) = Some cyclic_I1"
    by code_simp
  have "findParentOfParent (lines_root cyclic_lines) (Some cyclic_I1) = None"
  proof (cases "findParentOfParent (lines_root cyclic_lines) (Some cyclic_I1)")
    case None
    then show ?thesis .
  next
    case (Some y)
    from returns_walk_ends [OF Some] walk_cyclic show ?thesis by blast
  qed
  with t g first show ?thesis by (simp add: display_def display_root_def)
qed

text \<open>
  Claim C2, amended: \<^verbatim>\<open>findParentOfParent\<close> returns exactly when the paternal chain from
  the start ends after finitely many steps, however many: at an individual without
  \<^verbatim>\<open>FAMC\<close> or without a father that resolves, or at a lookup that throws. It has no step
  bound and no sentinel, so it does not return on a cyclic chain. The bound of 100 steps
  and the \<^verbatim>\<open>"ERROR"\<close> sentinel belong to \<^verbatim>\<open>findRoot\<close>, which climbs \<^verbatim>\<open>.parent\<close> while the
  level is the number \<open>-1\<close>: it answers \<^verbatim>\<open>"ERROR"\<close> exactly when the row and its first 100
  ancestors all have that level.
\<close>

theorem root_discovery_returns_iff:
  "((\<exists>r. findParentOfParent g (Some n) = Some r) \<longleftrightarrow> (\<exists>k. walk k g n = None)) \<and>
   (findRoot chain = ERROR \<longleftrightarrow>
      100 < length chain \<and> (\<forall>r \<in> set (take 101 chain). level r = Some (LNum (- 1))))"
proof -
  have "(\<exists>r. findParentOfParent g (Some n) = Some r) \<longleftrightarrow> (\<exists>k. walk k g n = None)"
    using walk_ends_returns returns_walk_ends by blast
  moreover have "findRoot chain = ERROR \<longleftrightarrow>
      100 < length chain \<and> (\<forall>r \<in> set (take 101 chain). level r = Some (LNum (- 1)))"
    unfolding findRoot_def findRoot_loop_ERROR by simp
  ultimately show ?thesis by blast
qed

theorem root_discovery_returns_iff_witness:
  "walk 2 (lines_root scenario_A) scenario_A_I1 = None \<and>
   (\<exists>r. findParentOfParent (lines_root scenario_A) (Some scenario_A_I1) = Some r) \<and>
   findRoot (replicate 101 (new_FamilyRow (Some (LNum (- 1))) None None None)) = ERROR"
proof -
  have w: "walk 2 (lines_root scenario_A) scenario_A_I1 = None" by code_simp
  have l: "\<forall>r \<in> set (take 101 (replicate 101 (new_FamilyRow (Some (LNum (- 1))) None None None))).
             level r = Some (LNum (- 1))"
    by (simp add: new_FamilyRow_def)
  from root_discovery_returns_iff
         [of "lines_root scenario_A" scenario_A_I1
             "replicate 101 (new_FamilyRow (Some (LNum (- 1))) None None None)"] w l
  show ?thesis by auto
qed

section \<open>Rows and references during the queue loop\<close>

subsection \<open>Rows given at enqueue time\<close>

lemma map_of_set_assoc: "map_of (set_assoc kvs k v) = (map_of kvs)(k \<mapsto> v)"
  by (induction kvs) (auto simp: fun_eq_iff)

lemma rowLevel_of_set_assoc:
  "rowLevel_of (st\<lparr>rowLevel := set_assoc (rowLevel st) n lv\<rparr>) m =
     (if m = n then lv else rowLevel_of st m)"
  by (simp add: rowLevel_of_def map_of_set_assoc)

text \<open>Every node of a batch carries the level of the batch, and every reference that
  resolves to a node not yet visited is in the batch.\<close>

lemma collect_elements_levels:
  "collect_elements g ty lv es st acc = (st', out) \<Longrightarrow>
     (\<forall>n \<in> set acc. rowLevel_of st n = lv) \<Longrightarrow>
     (\<forall>n \<in> set out. rowLevel_of st' n = lv) \<and>
     (\<forall>e \<in> set es. \<forall>n. resolve g ty (id e) = Some n \<longrightarrow> n \<notin> set (visited st) \<longrightarrow> n \<in> set out) \<and>
     set acc \<subseteq> set out"
proof (induction es arbitrary: st acc)
  case Nil
  then show ?case by auto
next
  case (Cons e es)
  show ?case
  proof (cases "resolve g ty (id e)")
    case None
    with Cons.prems have c: "collect_elements g ty lv es st acc = (st', out)" by simp
    from Cons.IH [OF c Cons.prems(2)] None show ?thesis by auto
  next
    case (Some n)
    show ?thesis
    proof (cases "n \<in> set (visited st)")
      case True
      with Some Cons.prems have c: "collect_elements g ty lv es st acc = (st', out)" by simp
      from Cons.IH [OF c Cons.prems(2)] Some True show ?thesis by auto
    next
      case False
      let ?st1 = "st\<lparr>rowLevel := set_assoc (rowLevel st) n lv\<rparr>"
      from False Some Cons.prems have
        c: "collect_elements g ty lv es ?st1 (acc @ [n]) = (st', out)" by simp
      have a: "\<forall>m \<in> set (acc @ [n]). rowLevel_of ?st1 m = lv"
        using Cons.prems(2) by (auto simp: rowLevel_of_set_assoc)
      have v: "visited ?st1 = visited st" by simp
      from Cons.IH [OF c a] Some False v show ?thesis by auto
    qed
  qed
qed

lemma addElementsToQueue_levels:
  assumes "addElementsToQueue g els lv ty st = Inr st'"
    and "els = Some sl" and "e \<in> set (case sl of One x \<Rightarrow> [x] | Many xs \<Rightarrow> xs)"
    and "resolve g ty (id e) = Some n" and "n \<notin> set (visited st)"
  shows "rowLevel_of st' n = lv \<and> n \<in> set (queueForNext st')"
proof -
  define es where "es = (case sl of One e \<Rightarrow> [e] | Many xs \<Rightarrow> xs)"
  obtain st1 out where c: "collect_elements g ty lv es st [] = (st1, out)"
    by (cases "collect_elements g ty lv es st []") auto
  from assms(1,2) c obtain batch where b: "sort_elements g out = Inr batch"
    and st': "st' = st1\<lparr>queueForNext := queueForNext st1 @ batch\<rparr>"
    by (auto simp: addElementsToQueue_def es_def split: sum.splits)
  from collect_elements_levels [OF c] assms(3,4,5) have "rowLevel_of st1 n = lv" "n \<in> set out"
    by (auto simp: es_def)
  with sort_elements_set [OF b] st' show ?thesis by (simp add: rowLevel_of_def)
qed

lemma rows_of_slot:
  "get_prop row k = Some sl \<Longrightarrow> rows_of row k = (case sl of One x \<Rightarrow> [x] | Many xs \<Rightarrow> xs)"
  by (simp add: rows_of_def split: slot.splits)

lemma rows_of_nonempty_slot: "e \<in> set (rows_of row k) \<Longrightarrow> \<exists>sl. get_prop row k = Some sl"
  by (cases "get_prop row k") (auto simp: rows_of_def)

definition row_at :: "layout \<Rightarrow> int \<Rightarrow> node list" where
  "row_at st lv = (case map_of (orderInLevel st) lv of None \<Rightarrow> [] | Some r \<Rightarrow> r)"

lemma insert_after_mem: "new \<in> set (insert_after new existing xs)"
  by (induction xs) auto

lemma insert_before_mem: "new \<in> set (insert_before new existing xs)"
  by (induction xs) auto

lemma place_row:
  assumes "place g element row lv st = Inr st'"
  shows "element \<in> set (row_at st' lv)"
proof -
  have "element \<in> set (addAfter element p order)" for p order
    by (cases p) (auto simp: addAfter_def insert_after_mem)
  moreover have "element \<in> set (addBefore element p order)" for p order
    by (cases p) (auto simp: addBefore_def insert_before_mem)
  ultimately show ?thesis
    using assms
    by (auto simp: place_def row_at_def map_of_set_assoc Let_def dest!: then_do_Inr
             split: prod.splits)
qed

text \<open>
  A marriage across generations: \<^verbatim>\<open>@I3@\<close> and \<^verbatim>\<open>@I4@\<close> are the sons of family
  \<^verbatim>\<open>@F1@\<close>; \<^verbatim>\<open>@I6@\<close> is the daughter of \<^verbatim>\<open>@I3@\<close> in family \<^verbatim>\<open>@F2@\<close> and the wife of her
  uncle \<^verbatim>\<open>@I4@\<close> in family \<^verbatim>\<open>@F3@\<close>.
\<close>

definition uncle_niece_lines :: "string list" where
  "uncle_niece_lines =
     [''0 @I1@ INDI'', ''1 SEX M'', ''1 FAMS @F1@'',
      ''0 @I2@ INDI'', ''1 SEX F'', ''1 FAMS @F1@'',
      ''0 @I3@ INDI'', ''1 SEX M'', ''1 FAMC @F1@'', ''1 FAMS @F2@'',
      ''0 @I4@ INDI'', ''1 SEX M'', ''1 FAMC @F1@'', ''1 FAMS @F3@'',
      ''0 @I5@ INDI'', ''1 SEX F'', ''1 FAMS @F2@'',
      ''0 @I6@ INDI'', ''1 SEX F'', ''1 FAMC @F2@'', ''1 FAMS @F3@'',
      ''0 @F1@ FAM'', ''1 HUSB @I1@'', ''1 WIFE @I2@'', ''1 CHIL @I3@'', ''1 CHIL @I4@'',
      ''0 @F2@ FAM'', ''1 HUSB @I3@'', ''1 WIFE @I5@'', ''1 CHIL @I6@'',
      ''0 @F3@ FAM'', ''1 HUSB @I4@'', ''1 WIFE @I6@'']"

text \<open>
  Claim C4, as stated: after the run, for every placed individual whose \<^verbatim>\<open>FAMC\<close> resolves
  to a placed family, the family's row is one less than the individual's row. In the run
  on the lines above \<^verbatim>\<open>@I6@\<close> is queued for row 2 by her parents' family \<^verbatim>\<open>@F2@\<close> and,
  before she is taken from the queue, for row 1 by her husband's family \<^verbatim>\<open>@F3@\<close>; she is
  placed in row 1, the row of \<^verbatim>\<open>@F2@\<close>.
\<close>

theorem display_uncle_niece_counterexample:
  "display uncle_niece_lines =
     Some (Inr \<lparr> visited = [Indi (Some ''@I6@''), Indi (Some ''@I5@''), Fam (Some ''@F3@''),
                             Fam (Some ''@F2@''), Indi (Some ''@I4@''), Indi (Some ''@I3@''),
                             Indi (Some ''@I2@''), Fam (Some ''@F1@''), Indi (Some ''@I1@'')],
                  rowLevel = [(Indi (Some ''@I1@''), 0), (Fam (Some ''@F1@''), 0),
                              (Indi (Some ''@I2@''), 0), (Indi (Some ''@I3@''), 1),
                              (Indi (Some ''@I4@''), 1), (Fam (Some ''@F2@''), 1),
                              (Fam (Some ''@F3@''), 1), (Indi (Some ''@I5@''), 1),
                              (Indi (Some ''@I6@''), 1)],
                  queueForNext = [],
                  orderInLevel = [(0, [Indi (Some ''@I1@''), Fam (Some ''@F1@''), Indi (Some ''@I2@'')]),
                                  (1, [Indi (Some ''@I3@''), Fam (Some ''@F2@''), Indi (Some ''@I5@''),
                                       Indi (Some ''@I4@''), Fam (Some ''@F3@''), Indi (Some ''@I6@'')])],
                  alerts = [] \<rparr>)"
  by code_simp

text \<open>
  Claim C4, amended: the distance of one row between an individual and its parent family is
  set when one of the two is taken from the queue, and only then. An element taken from the
  queue is placed in the row it carries at that moment, \<open>r\<close>. If it is an individual, each
  of its \<^verbatim>\<open>FAMC\<close> families that resolves and is not yet visited is queued with row
  \<open>r - 1\<close>; if it is a family, each of its \<^verbatim>\<open>CHIL\<close> individuals that resolves and is not
  yet visited is queued with row \<open>r + 1\<close>. A node that is queued again from another
  neighbour before it is taken out carries the row of the latest enqueue, so the final
  rows need not differ by one.
\<close>

theorem visit_rows_relative:
  assumes "visit g element st = Inr st'" and "node_row g element = Some row"
  shows "element \<in> set (row_at st' (rowLevel_of st element)) \<and>
     (tag row = Some ''INDI'' \<longrightarrow>
        (\<forall>e \<in> set (rows_of row ''FAMC'').
           families_get g (id e) \<noteq> None \<and> Fam (id e) \<notin> set (element # visited st) \<longrightarrow>
           rowLevel_of st' (Fam (id e)) = rowLevel_of st element - 1 \<and>
           Fam (id e) \<in> set (queueForNext st'))) \<and>
     (tag row = Some ''FAM'' \<longrightarrow>
        (\<forall>e \<in> set (rows_of row ''CHIL'').
           indviduals_get g (id e) \<noteq> None \<and> Indi (id e) \<notin> set (element # visited st) \<longrightarrow>
           rowLevel_of st' (Indi (id e)) = rowLevel_of st element + 1 \<and>
           Indi (id e) \<in> set (queueForNext st')))"
proof -
  let ?st1 = "st\<lparr>visited := element # visited st\<rparr>"
  have lv: "rowLevel_of ?st1 element = rowLevel_of st element" by (simp add: rowLevel_of_def)
  from assms obtain st2 where
    a: "addNextElements g element row ?st1 = Inr st2"
    and p: "place g element row (rowLevel_of st element) st2 = Inr st'"
    by (auto simp: visit_def Let_def rowLevel_of_def dest!: then_do_Inr)
  from place_frame [OF p] have same: "rowLevel_of st' = rowLevel_of st2" "queueForNext st' = queueForNext st2"
    by (auto simp: rowLevel_of_def fun_eq_iff)
  have placed: "element \<in> set (row_at st' (rowLevel_of st element))" by (rule place_row [OF p])
  have famc: "rowLevel_of st' (Fam (id e)) = rowLevel_of st element - 1 \<and>
           Fam (id e) \<in> set (queueForNext st')"
    if t: "tag row = Some ''INDI''" and e: "e \<in> set (rows_of row ''FAMC'')"
      and r: "families_get g (id e) \<noteq> None" and v: "Fam (id e) \<notin> set (element # visited st)" for e
  proof -
    from e obtain sl where sl: "get_prop row ''FAMC'' = Some sl" by (auto dest: rows_of_nonempty_slot)
    from a t lv obtain st1 where
      f: "addElementsToQueue g (get_prop row ''FAMS'') (rowLevel_of st element) FAM_type ?st1 = Inr st1"
      and c: "addElementsToQueue g (get_prop row ''FAMC'') (rowLevel_of st element - 1) FAM_type st1 = Inr st2"
      by (auto simp: addNextElements_def Let_def dest!: then_do_Inr)
    from addElementsToQueue_frame [OF f] v have nv: "Fam (id e) \<notin> set (visited st1)" by simp
    have res: "resolve g FAM_type (id e) = Some (Fam (id e))" using r by (auto simp: resolve_def)
    from e rows_of_slot [OF sl] have mem: "e \<in> set (case sl of One x \<Rightarrow> [x] | Many xs \<Rightarrow> xs)" by simp
    from addElementsToQueue_levels [OF c sl mem res nv] same show ?thesis by simp
  qed
  have chil: "rowLevel_of st' (Indi (id e)) = rowLevel_of st element + 1 \<and>
           Indi (id e) \<in> set (queueForNext st')"
    if t: "tag row = Some ''FAM''" and e: "e \<in> set (rows_of row ''CHIL'')"
      and r: "indviduals_get g (id e) \<noteq> None" and v: "Indi (id e) \<notin> set (element # visited st)" for e
  proof -
    from e obtain sl where sl: "get_prop row ''CHIL'' = Some sl" by (auto dest: rows_of_nonempty_slot)
    from a t lv obtain st1 st1' where
      h: "addElementsToQueue g (get_prop row ''HUSB'') (rowLevel_of st element) INDI_type ?st1 = Inr st1"
      and w: "addElementsToQueue g (get_prop row ''WIFE'') (rowLevel_of st element) INDI_type st1 = Inr st1'"
      and c: "addElementsToQueue g (get_prop row ''CHIL'') (rowLevel_of st element + 1) INDI_type st1' = Inr st2"
      by (auto simp: addNextElements_def Let_def dest!: then_do_Inr)
    from addElementsToQueue_frame [OF h] addElementsToQueue_frame [OF w] v
    have nv: "Indi (id e) \<notin> set (visited st1')" by simp
    have res: "resolve g INDI_type (id e) = Some (Indi (id e))" using r by (auto simp: resolve_def)
    from e rows_of_slot [OF sl] have mem: "e \<in> set (case sl of One x \<Rightarrow> [x] | Many xs \<Rightarrow> xs)" by simp
    from addElementsToQueue_levels [OF c sl mem res nv] same show ?thesis by simp
  qed
  from placed famc chil show ?thesis by blast
qed

theorem visit_rows_relative_witness:
  "visit (lines_root scenario_A) (Indi (Some ''@I1@'')) (start_layout (Some scenario_A_I1)) =
     Inr \<lparr> visited = [Indi (Some ''@I1@'')],
           rowLevel = [(Indi (Some ''@I1@''), - 10), (Fam (Some ''@F1@''), - 11)],
           queueForNext = [Indi (Some ''@I1@''), Fam (Some ''@F1@'')],
           orderInLevel = [(- 10, [Indi (Some ''@I1@'')])], alerts = [] \<rparr> \<and>
   rowLevel_of (start_layout (Some scenario_A_I1)) (Indi (Some ''@I1@'')) = - 10 \<and>
   Indi (Some ''@I1@'') \<in> set (row_at
       \<lparr> visited = [Indi (Some ''@I1@'')],
         rowLevel = [(Indi (Some ''@I1@''), - 10), (Fam (Some ''@F1@''), - 11)],
         queueForNext = [Indi (Some ''@I1@''), Fam (Some ''@F1@'')],
         orderInLevel = [(- 10, [Indi (Some ''@I1@'')])], alerts = [] \<rparr> (- 10)) \<and>
   rowLevel_of
       \<lparr> visited = [Indi (Some ''@I1@'')],
         rowLevel = [(Indi (Some ''@I1@''), - 10), (Fam (Some ''@F1@''), - 11)],
         queueForNext = [Indi (Some ''@I1@''), Fam (Some ''@F1@'')],
         orderInLevel = [(- 10, [Indi (Some ''@I1@'')])], alerts = [] \<rparr> (Fam (Some ''@F1@'')) = - 10 - 1"
proof -
  define g where "g = lines_root scenario_A"
  define st where "st = start_layout (Some scenario_A_I1)"
  define st' where "st' = \<lparr> visited = [Indi (Some ''@I1@'')],
         rowLevel = [(Indi (Some ''@I1@''), - 10), (Fam (Some ''@F1@''), - 11)],
         queueForNext = [Indi (Some ''@I1@''), Fam (Some ''@F1@'')],
         orderInLevel = [(- 10, [Indi (Some ''@I1@'')])], alerts = [] \<rparr>"
  define e where "e = FamilyRow (Some (LStr ''1'')) (Some ''@F1@'') (Some ''FAMC'') None []"
  have v: "visit g (Indi (Some ''@I1@'')) st = Inr st'"
    unfolding g_def st_def st'_def by code_simp
  have n: "node_row g (Indi (Some ''@I1@'')) = Some scenario_A_I1"
    unfolding g_def by code_simp
  have t: "tag scenario_A_I1 = Some ''INDI''" by (simp add: scenario_A_I1_def)
  have e: "e \<in> set (rows_of scenario_A_I1 ''FAMC'')"
    by (simp add: e_def scenario_A_I1_def rows_of_def get_prop_def)
  have i: "id e = Some ''@F1@''" by (simp add: e_def)
  have r: "families_get g (id e) \<noteq> None" unfolding g_def e_def by code_simp
  have nv: "Fam (id e) \<notin> set (Indi (Some ''@I1@'') # visited st)"
    by (simp add: st_def start_layout_def initial_layout_def)
  have l: "rowLevel_of st (Indi (Some ''@I1@'')) = - 10" unfolding st_def by code_simp
  note th = visit_rows_relative [OF v n]
  from th have placed: "Indi (Some ''@I1@'') \<in> set (row_at st' (rowLevel_of st (Indi (Some ''@I1@''))))"
    by (rule conjunct1)
  from th t have "\<forall>e \<in> set (rows_of scenario_A_I1 ''FAMC'').
           families_get g (id e) \<noteq> None \<and> Fam (id e) \<notin> set (Indi (Some ''@I1@'') # visited st) \<longrightarrow>
           rowLevel_of st' (Fam (id e)) = rowLevel_of st (Indi (Some ''@I1@'')) - 1 \<and>
           Fam (id e) \<in> set (queueForNext st')"
    by blast
  from bspec [OF this e] r nv
  have "rowLevel_of st' (Fam (id e)) = rowLevel_of st (Indi (Some ''@I1@'')) - 1" by blast
  with i l have row: "rowLevel_of st' (Fam (Some ''@F1@'')) = - 10 - 1" by simp
  from placed l have placed': "Indi (Some ''@I1@'') \<in> set (row_at st' (- 10))" by simp
  from v l placed' row show ?thesis
    unfolding g_def st_def st'_def by blast
qed

subsection \<open>References that do not resolve\<close>

text \<open>Four small trees with one reference each to a record that does not exist: a child
  \<^verbatim>\<open>@I9@\<close>, a wife \<^verbatim>\<open>@I9@\<close>, a spouse family \<^verbatim>\<open>@F9@\<close>, a parent family \<^verbatim>\<open>@F9@\<close>.\<close>

definition dangling_CHIL_lines :: "string list" where
  "dangling_CHIL_lines =
     [''0 @I1@ INDI'', ''1 SEX M'', ''1 FAMS @F1@'',
      ''0 @I2@ INDI'', ''1 SEX F'', ''1 FAMS @F1@'',
      ''0 @F1@ FAM'', ''1 HUSB @I1@'', ''1 WIFE @I2@'', ''1 CHIL @I9@'']"

definition dangling_WIFE_lines :: "string list" where
  "dangling_WIFE_lines =
     [''0 @I1@ INDI'', ''1 SEX M'', ''1 FAMS @F1@'',
      ''0 @I2@ INDI'', ''1 SEX M'', ''1 FAMC @F1@'',
      ''0 @F1@ FAM'', ''1 HUSB @I1@'', ''1 WIFE @I9@'', ''1 CHIL @I2@'']"

definition dangling_FAMS_lines :: "string list" where
  "dangling_FAMS_lines =
     [''0 @I1@ INDI'', ''1 SEX M'', ''1 FAMS @F9@'', ''1 FAMS @F1@'',
      ''0 @I2@ INDI'', ''1 SEX F'', ''1 FAMS @F1@'',
      ''0 @F1@ FAM'', ''1 HUSB @I1@'', ''1 WIFE @I2@'']"

definition dangling_FAMC_lines :: "string list" where
  "dangling_FAMC_lines =
     [''0 @I1@ INDI'', ''1 SEX M'', ''1 FAMC @F9@'', ''1 FAMS @F1@'',
      ''0 @I2@ INDI'', ''1 SEX F'', ''1 FAMS @F1@'',
      ''0 @F1@ FAM'', ''1 HUSB @I1@'', ''1 WIFE @I2@'']"

definition dangling_I1 :: FamilyRow where
  "dangling_I1 = FamilyRow (Some (LStr ''0'')) (Some ''@I1@'') (Some ''INDI'') None
     [(''SEX'', One (FamilyRow (Some (LStr ''1'')) None (Some ''SEX'') (Some ''M'') [])),
      (''FAMS'', Many [FamilyRow (Some (LStr ''1'')) (Some ''@F9@'') (Some ''FAMS'') None [],
                       FamilyRow (Some (LStr ''1'')) (Some ''@F1@'') (Some ''FAMS'') None []])]"

definition no_family_alert :: "key \<Rightarrow> string" where
  "no_family_alert k = ''Error in loaded data: No family node found in level 0 with id'' @ id_text k"

definition anchor_family :: "root \<Rightarrow> layout \<Rightarrow> key \<Rightarrow> FamilyRow \<Rightarrow> bool" where
  "anchor_family g st i elem =
     (case families_get g (id elem) of
        None \<Rightarrow> False
      | Some originalElem \<Rightarrow>
          Fam (id elem) \<in> set (visited st) \<and>
          (idInList i (get_prop originalElem ''HUSB'') \<or> idInList i (get_prop originalElem ''WIFE'')))"

lemma scan_FAMS_alerts:
  "snd (scan_FAMS g st i elems msgs) =
     msgs @ map (\<lambda>e. no_family_alert (id e))
              (filter (\<lambda>e. families_get g (id e) = None)
                 (takeWhile (\<lambda>e. \<not> anchor_family g st i e) elems))"
  by (induction elems arbitrary: msgs)
     (auto simp: anchor_family_def no_family_alert_def split: option.splits)

lemma resolve_node_row: "resolve g ty k = Some n \<Longrightarrow> node_row g n \<noteq> None"
  by (auto simp: resolve_def node_row_def split: tag_type.splits)

lemma collect_elements_resolved:
  "collect_elements g ty lv es st acc = (st', out) \<Longrightarrow>
     set out \<subseteq> set acc \<union> {n. node_row g n \<noteq> None}"
proof (induction es arbitrary: st acc)
  case Nil
  then show ?case by auto
next
  case (Cons e es)
  show ?case
  proof (cases "resolve g ty (id e)")
    case None
    with Cons.prems have "collect_elements g ty lv es st acc = (st', out)" by simp
    from Cons.IH [OF this] show ?thesis .
  next
    case (Some n)
    show ?thesis
    proof (cases "n \<in> set (visited st)")
      case True
      with Some Cons.prems have "collect_elements g ty lv es st acc = (st', out)" by simp
      from Cons.IH [OF this] show ?thesis .
    next
      case False
      with Some Cons.prems have
        "collect_elements g ty lv es (st\<lparr>rowLevel := set_assoc (rowLevel st) n lv\<rparr>) (acc @ [n]) = (st', out)"
        by simp
      from Cons.IH [OF this] resolve_node_row [OF Some] show ?thesis by auto
    qed
  qed
qed

lemma addElementsToQueue_resolved:
  assumes "addElementsToQueue g els lv ty st = Inr st'"
  shows "\<forall>n \<in> set (queueForNext st'). n \<in> set (queueForNext st) \<or> node_row g n \<noteq> None"
proof (cases els)
  case None
  with assms show ?thesis by (simp add: addElementsToQueue_def)
next
  case (Some sl)
  define es where "es = (case sl of One e \<Rightarrow> [e] | Many xs \<Rightarrow> xs)"
  obtain st1 out where c: "collect_elements g ty lv es st [] = (st1, out)"
    by (cases "collect_elements g ty lv es st []") auto
  from assms Some c obtain batch where b: "sort_elements g out = Inr batch"
    and st': "st' = st1\<lparr>queueForNext := queueForNext st1 @ batch\<rparr>"
    by (auto simp: addElementsToQueue_def es_def split: sum.splits)
  from collect_elements_frame [OF c] collect_elements_resolved [OF c] sort_elements_set [OF b] st'
  show ?thesis by auto
qed

text \<open>
  Claim C7, as stated: whenever a \<^verbatim>\<open>FAMS\<close>, \<^verbatim>\<open>FAMC\<close>, \<^verbatim>\<open>HUSB\<close>, \<^verbatim>\<open>WIFE\<close> or \<^verbatim>\<open>CHIL\<close> id
  does not resolve, the layout reports an error that names the missing id and the referring
  record, and neither crashes nor passes over it in silence. With the child \<^verbatim>\<open>@I9@\<close>
  missing the layout completes without any alert; with the wife \<^verbatim>\<open>@I9@\<close> missing it ends
  in a \<^verbatim>\<open>TypeError\<close> thrown by \<^verbatim>\<open>getVisitedElement\<close>.
\<close>

theorem display_dangling_counterexample:
  "display dangling_CHIL_lines =
     Some (Inr \<lparr> visited = [Indi (Some ''@I2@''), Fam (Some ''@F1@''), Indi (Some ''@I1@'')],
                  rowLevel = [(Indi (Some ''@I1@''), 0), (Fam (Some ''@F1@''), 0),
                              (Indi (Some ''@I2@''), 0)],
                  queueForNext = [],
                  orderInLevel = [(0, [Indi (Some ''@I1@''), Fam (Some ''@F1@''), Indi (Some ''@I2@'')])],
                  alerts = [] \<rparr>) \<and>
   display dangling_WIFE_lines = Some (Inl (TypeError ''cannot read visited of undefined''))"
  by code_simp

text \<open>
  Claim C7, amended: the layout reports a reference that does not resolve in one place only.
  When an individual is placed, the loop goes through its \<^verbatim>\<open>FAMS\<close> entries up to the first
  one that is a visited family listing the individual as husband or wife, and raises one
  alert for each entry on the way whose id is not in the families Map; the alert names the
  missing id, not the individual, and the loop goes on. Enqueueing
  (\<^verbatim>\<open>addElementsToQueue\<close>, used for \<^verbatim>\<open>HUSB\<close>, \<^verbatim>\<open>WIFE\<close>, \<^verbatim>\<open>CHIL\<close>, \<^verbatim>\<open>FAMS\<close> and \<^verbatim>\<open>FAMC\<close>)
  raises no alert and places nothing: a reference that does not resolve adds nothing to the
  queue, so the record it names is passed over in silence.
\<close>

theorem dangling_references:
  "(addElementsToQueue g elements lv tagType st = Inr st' \<longrightarrow>
      alerts st' = alerts st \<and> orderInLevel st' = orderInLevel st \<and>
      (\<forall>n \<in> set (queueForNext st'). n \<in> set (queueForNext st) \<or> node_row g n \<noteq> None)) \<and>
   (place g element row lv st = Inr st' \<and> tag row = Some ''INDI'' \<and>
    get_prop row ''FAMS'' = Some (Many elems) \<longrightarrow>
      alerts st' = alerts st @ map (\<lambda>e. no_family_alert (id e))
                     (filter (\<lambda>e. families_get g (id e) = None)
                        (takeWhile (\<lambda>e. \<not> anchor_family g st (id row) e) elems)))"
proof -
  have A: "alerts st' = alerts st \<and> orderInLevel st' = orderInLevel st \<and>
      (\<forall>n \<in> set (queueForNext st'). n \<in> set (queueForNext st) \<or> node_row g n \<noteq> None)"
    if a: "addElementsToQueue g elements lv tagType st = Inr st'"
    using addElementsToQueue_frame [OF a] addElementsToQueue_resolved [OF a] by simp
  have B: "alerts st' = alerts st @ map (\<lambda>e. no_family_alert (id e))
                     (filter (\<lambda>e. families_get g (id e) = None)
                        (takeWhile (\<lambda>e. \<not> anchor_family g st (id row) e) elems))"
    if p: "place g element row lv st = Inr st'" and t: "tag row = Some ''INDI''"
      and f: "get_prop row ''FAMS'' = Some (Many elems)"
  proof -
    from p t f have "alerts st' = alerts st @ snd (scan_FAMS g st (id row) elems [])"
      by (auto simp: place_def Let_def then_do_def split: prod.splits)
    then show ?thesis by (simp add: scan_FAMS_alerts)
  qed
  from A B show ?thesis by blast
qed

theorem dangling_references_witness:
  "addElementsToQueue (lines_root dangling_CHIL_lines)
      (Some (Many [FamilyRow (Some (LStr ''1'')) (Some ''@I9@'') (Some ''CHIL'') None []]))
      1 INDI_type initial_layout = Inr initial_layout \<and>
   place (lines_root dangling_FAMS_lines) (Indi (Some ''@I1@'')) dangling_I1 (- 10) initial_layout =
     Inr \<lparr> visited = [], rowLevel = [], queueForNext = [],
           orderInLevel = [(- 10, [Indi (Some ''@I1@'')])],
           alerts = [''Error in loaded data: No family node found in level 0 with id@F9@''] \<rparr> \<and>
   families_get (lines_root dangling_FAMS_lines) (Some ''@F9@'') = None \<and>
   alerts \<lparr> visited = [], rowLevel = [], queueForNext = [],
           orderInLevel = [(- 10, [Indi (Some ''@I1@'')])],
           alerts = [''Error in loaded data: No family node found in level 0 with id@F9@''] \<rparr>
     = alerts initial_layout @ [no_family_alert (Some ''@F9@'')]"
proof -
  define g1 where "g1 = lines_root dangling_CHIL_lines"
  define g2 where "g2 = lines_root dangling_FAMS_lines"
  define st' where "st' = \<lparr> visited = [], rowLevel = [], queueForNext = [],
           orderInLevel = [(- 10, [Indi (Some ''@I1@'')])],
           alerts = [''Error in loaded data: No family node found in level 0 with id@F9@''] \<rparr>"
  define refs where
    "refs = Some (Many [FamilyRow (Some (LStr ''1'')) (Some ''@I9@'') (Some ''CHIL'') None []])"
  define e1 where "e1 = FamilyRow (Some (LStr ''1'')) (Some ''@F9@'') (Some ''FAMS'') None []"
  define e2 where "e2 = FamilyRow (Some (LStr ''1'')) (Some ''@F1@'') (Some ''FAMS'') None []"
  have a: "addElementsToQueue g1 refs 1 INDI_type initial_layout = Inr initial_layout"
    unfolding g1_def refs_def by code_simp
  have p: "place g2 (Indi (Some ''@I1@'')) dangling_I1 (- 10) initial_layout = Inr st'"
    unfolding g2_def st'_def by code_simp
  have t: "tag dangling_I1 = Some ''INDI''" by (simp add: dangling_I1_def)
  have f: "get_prop dangling_I1 ''FAMS'' = Some (Many [e1, e2])"
    by (simp add: dangling_I1_def get_prop_def e1_def e2_def)
  have r: "families_get g2 (Some ''@F9@'') = None" unfolding g2_def by code_simp
  have i1: "id e1 = Some ''@F9@''" by (simp add: e1_def)
  have i2: "id e2 = Some ''@F1@''" by (simp add: e2_def)
  have r1: "families_get g2 (Some ''@F1@'') \<noteq> None" unfolding g2_def by code_simp
  have n1: "\<not> anchor_family g2 initial_layout (id dangling_I1) e1"
    by (simp add: anchor_family_def i1 r)
  have n2: "\<not> anchor_family g2 initial_layout (id dangling_I1) e2"
    by (simp add: anchor_family_def initial_layout_def split: option.splits)
  from dangling_references
         [where g = g1 and elements = refs and lv = 1
            and tagType = INDI_type and st = initial_layout and st' = initial_layout]
       a
  have A: "alerts initial_layout = alerts initial_layout" by blast
  from dangling_references
         [where g = g2 and st = initial_layout and st' = st'
            and element = "Indi (Some ''@I1@'')" and row = dangling_I1 and lv = "- 10"
            and elems = "[e1, e2]"]
       p t f
  have "alerts st' = alerts initial_layout @ map (\<lambda>e. no_family_alert (id e))
                     (filter (\<lambda>e. families_get g2 (id e) = None)
                        (takeWhile (\<lambda>e. \<not> anchor_family g2 initial_layout (id dangling_I1) e) [e1, e2]))"
    by blast
  with n1 n2 i1 i2 r r1
  have B: "alerts st' = alerts initial_layout @ [no_family_alert (Some ''@F9@'')]" by simp
  from a p r B show ?thesis
    unfolding g1_def g2_def st'_def refs_def by blast
qed

section \<open>Edit operations\<close>

text \<open>
  The edit operations of \<^verbatim>\<open>gedcom_edit.js\<close> change \<^verbatim>\<open>rootFamilyRow\<close> in place, and a
  \<^verbatim>\<open>TypeError\<close> in the middle leaves the changes made so far. An operation therefore
  returns the root as it stands at the end together with the error, if one was thrown.
  An individual or a family that the caller has selected is named by its position in
  \<^verbatim>\<open>rootFamilyRow.INDI\<close> or \<^verbatim>\<open>rootFamilyRow.FAM\<close>.
\<close>

type_synonym outcome = "root \<times> error option"

definition and_then :: "outcome \<Rightarrow> (root \<Rightarrow> outcome) \<Rightarrow> outcome" where
  "and_then r f = (case r of (g, None) \<Rightarrow> f g | (g, Some e) \<Rightarrow> (g, Some e))"

subsection \<open>Numbers written as text\<close>

text \<open>Number-to-string conversion, as in \<^verbatim>\<open>"@I" + idNumber + "@"\<close>.\<close>

definition digit_char :: "nat \<Rightarrow> char" where
  "digit_char d = ''0123456789'' ! d"

fun string_of_nat :: "nat \<Rightarrow> string" where
  "string_of_nat n =
     (if n < 10 then [digit_char n] else string_of_nat (n div 10) @ [digit_char (n mod 10)])"

declare string_of_nat.simps [simp del]

definition string_of_int :: "int \<Rightarrow> string" where
  "string_of_int i = (if i < 0 then CHR ''-'' # string_of_nat (nat (- i)) else string_of_nat (nat i))"

definition getIndividualId :: "nat \<Rightarrow> string" where
  "getIndividualId idNumber = ''@I'' @ string_of_nat idNumber @ ''@''"

definition getFamilyId :: "nat \<Rightarrow> string" where
  "getFamilyId idNumber = ''@F'' @ string_of_nat idNumber @ ''@''"

definition digit_value :: "char \<Rightarrow> nat" where
  "digit_value c = (case digit_of c of None \<Rightarrow> 0 | Some d \<Rightarrow> d)"

lemma digit_value_digit_char: "d < 10 \<Longrightarrow> digit_value (digit_char d) = d"
proof -
  assume "d < 10"
  then have "d \<in> {0, 1, 2, 3, 4, 5, 6, 7, 8, 9}" by auto
  then show ?thesis
    by (auto simp: digit_value_def digit_char_def digit_of_def)
qed

lemma read_string_of_nat:
  "foldl (\<lambda>a c. 10 * a + digit_value c) 0 (string_of_nat n) = n"
proof (induction n rule: string_of_nat.induct)
  case (1 n)
  show ?case
  proof (cases "n < 10")
    case True
    then show ?thesis by (simp add: string_of_nat.simps [of n] digit_value_digit_char)
  next
    case False
    with 1 show ?thesis
      by (simp add: string_of_nat.simps [of n] digit_value_digit_char)
  qed
qed

lemma inj_string_of_nat: "inj string_of_nat"
  by (rule inj_on_inverseI [where g = "foldl (\<lambda>a c. 10 * a + digit_value c) 0"])
     (rule read_string_of_nat)

lemma inj_getIndividualId: "inj getIndividualId"
  using inj_string_of_nat by (auto simp: inj_def getIndividualId_def)

lemma inj_getFamilyId: "inj getFamilyId"
  using inj_string_of_nat by (auto simp: inj_def getFamilyId_def)

subsection \<open>Fresh ids\<close>

text \<open>
  \<^verbatim>\<open>nextIndividualID\<close> and \<^verbatim>\<open>nextFamilyID\<close>: start at the size of the Map plus one and
  count up while the Map has the id. The loop ends because the Map has finitely many keys
  and different numbers give different ids.
\<close>

definition taken_from :: "(nat \<Rightarrow> string) \<Rightarrow> key list \<Rightarrow> nat \<Rightarrow> nat set" where
  "taken_from mk keys n = {m. n \<le> m \<and> Some (mk m) \<in> set keys}"

lemma finite_taken_from: "inj mk \<Longrightarrow> finite (taken_from mk keys n)"
proof -
  assume i: "inj mk"
  then have "inj (\<lambda>m. Some (mk m))" by (auto simp: inj_def)
  then have "finite ((\<lambda>m. Some (mk m)) -` set keys)" by (rule finite_vimageI [OF finite_set])
  moreover have "taken_from mk keys n \<subseteq> (\<lambda>m. Some (mk m)) -` set keys"
    by (auto simp: taken_from_def)
  ultimately show ?thesis by (rule rev_finite_subset)
qed

function nextIndividualID_loop :: "key list \<Rightarrow> nat \<Rightarrow> nat" where
  "nextIndividualID_loop keys nextId =
     (if Some (getIndividualId nextId) \<in> set keys then nextIndividualID_loop keys (Suc nextId)
      else nextId)"
  by pat_completeness auto
termination
proof (relation "measure (\<lambda>(keys, n). card (taken_from getIndividualId keys n))")
  show "wf (measure (\<lambda>(keys, n). card (taken_from getIndividualId keys n)))" by simp
next
  fix keys :: "key list" and nextId :: nat
  assume h: "Some (getIndividualId nextId) \<in> set keys"
  have "taken_from getIndividualId keys (Suc nextId) \<subseteq> taken_from getIndividualId keys nextId"
    and "nextId \<in> taken_from getIndividualId keys nextId"
    and "nextId \<notin> taken_from getIndividualId keys (Suc nextId)"
    using h by (auto simp: taken_from_def)
  then have "taken_from getIndividualId keys (Suc nextId) \<subset> taken_from getIndividualId keys nextId"
    by blast
  then have "card (taken_from getIndividualId keys (Suc nextId))
               < card (taken_from getIndividualId keys nextId)"
    by (rule psubset_card_mono [OF finite_taken_from [OF inj_getIndividualId]])
  then show "((keys, Suc nextId), (keys, nextId))
               \<in> measure (\<lambda>(keys, n). card (taken_from getIndividualId keys n))"
    by simp
qed

declare nextIndividualID_loop.simps [simp del]

function nextFamilyID_loop :: "key list \<Rightarrow> nat \<Rightarrow> nat" where
  "nextFamilyID_loop keys nextId =
     (if Some (getFamilyId nextId) \<in> set keys then nextFamilyID_loop keys (Suc nextId)
      else nextId)"
  by pat_completeness auto
termination
proof (relation "measure (\<lambda>(keys, n). card (taken_from getFamilyId keys n))")
  show "wf (measure (\<lambda>(keys, n). card (taken_from getFamilyId keys n)))" by simp
next
  fix keys :: "key list" and nextId :: nat
  assume h: "Some (getFamilyId nextId) \<in> set keys"
  have "taken_from getFamilyId keys (Suc nextId) \<subseteq> taken_from getFamilyId keys nextId"
    and "nextId \<in> taken_from getFamilyId keys nextId"
    and "nextId \<notin> taken_from getFamilyId keys (Suc nextId)"
    using h by (auto simp: taken_from_def)
  then have "taken_from getFamilyId keys (Suc nextId) \<subset> taken_from getFamilyId keys nextId"
    by blast
  then have "card (taken_from getFamilyId keys (Suc nextId))
               < card (taken_from getFamilyId keys nextId)"
    by (rule psubset_card_mono [OF finite_taken_from [OF inj_getFamilyId]])
  then show "((keys, Suc nextId), (keys, nextId))
               \<in> measure (\<lambda>(keys, n). card (taken_from getFamilyId keys n))"
    by simp
qed

declare nextFamilyID_loop.simps [simp del]

definition nextIndividualID :: "root \<Rightarrow> string" where
  "nextIndividualID g =
     getIndividualId (nextIndividualID_loop (indviduals g) (length (indviduals g) + 1))"

definition nextFamilyID :: "root \<Rightarrow> string" where
  "nextFamilyID g = getFamilyId (nextFamilyID_loop (families g) (length (families g) + 1))"

subsection \<open>Adding records\<close>

text \<open>\<^verbatim>\<open>formatGedcomName\<close>: trim, then every run of white space becomes one space.\<close>

function collapse_ws :: "string \<Rightarrow> string" where
  "collapse_ws [] = []"
| "collapse_ws (c # cs) =
     (if is_space c then CHR '' '' # collapse_ws (dropWhile is_space cs) else c # collapse_ws cs)"
  by pat_completeness auto
termination
  by (relation "measure length") (auto simp: length_dropWhile_le le_imp_less_Suc)

definition formatGedcomName :: "string \<Rightarrow> string" where
  "formatGedcomName fullName = collapse_ws (trim fullName)"

definition update_top :: "root \<Rightarrow> (FamilyRow \<Rightarrow> FamilyRow) \<Rightarrow> root" where
  "update_top g f = g\<lparr>top := f (top g)\<rparr>"

text \<open>\<open>update_row r k i f\<close> changes the \<open>i\<close>-th record under the property \<open>k\<close> of \<open>r\<close>.\<close>

definition update_row :: "FamilyRow \<Rightarrow> string \<Rightarrow> nat \<Rightarrow> (FamilyRow \<Rightarrow> FamilyRow) \<Rightarrow> FamilyRow" where
  "update_row r k i f =
     (case get_prop r k of
        None \<Rightarrow> r
      | Some (One x) \<Rightarrow> if i = 0 then set_prop r k (One (f x)) else r
      | Some (Many xs) \<Rightarrow> if i < length xs then set_prop r k (Many (xs[i := f (xs ! i)])) else r)"

text \<open>
  \<^verbatim>\<open>addIndiToRoot\<close> and \<^verbatim>\<open>addFamToRoot\<close>: a single record is first wrapped into an
  Array, then the new record is pushed and entered in the Map.
\<close>

definition addIndiToRoot :: "root \<Rightarrow> FamilyRow \<Rightarrow> root" where
  "addIndiToRoot g newNode =
     g\<lparr>top := set_prop (top g) ''INDI'' (Many (rows_of (top g) ''INDI'' @ [newNode])),
       indviduals := map_set (indviduals g) (id newNode)\<rparr>"

definition addFamToRoot :: "root \<Rightarrow> FamilyRow \<Rightarrow> root" where
  "addFamToRoot g newFamily =
     g\<lparr>top := set_prop (top g) ''FAM'' (Many (rows_of (top g) ''FAM'' @ [newFamily])),
       families := map_set (families g) (id newFamily)\<rparr>"

text \<open>
  \<^verbatim>\<open>createNewNode(rootFamilyRow, genderIp)\<close>. The name and the checked gender radio button
  are read from the page; here they are arguments (\<open>radio = None\<close>: no button checked).
  The new record is the last element of \<^verbatim>\<open>rootFamilyRow.INDI\<close> afterwards.
\<close>

definition truthy :: "string option \<Rightarrow> bool" where
  "truthy s = (case s of None \<Rightarrow> False | Some x \<Rightarrow> x \<noteq> [])"

definition createNewNode :: "root \<Rightarrow> string \<Rightarrow> string option \<Rightarrow> string option \<Rightarrow> root" where
  "createNewNode g newNodeName genderIp radio =
     (let gender = (if truthy genderIp then genderIp else radio);
          newNode = FamilyRow (Some (LNum 0)) (Some (nextIndividualID g)) (Some ''INDI'') None
                      ([(''NAME'', One (new_FamilyRow (Some (LNum 1)) None (Some ''NAME'')
                                          (Some (formatGedcomName newNodeName))))] @
                       (if truthy gender
                        then [(''SEX'', One (new_FamilyRow (Some (LNum 1)) None (Some ''SEX'') gender))]
                        else []))
      in addIndiToRoot g newNode)"

text \<open>\<open>has_members r k\<close> is the test \<^verbatim>\<open>r[k] && r[k].length > 0\<close>: true for a non-empty
  Array only, since a single record has no \<^verbatim>\<open>length\<close>.\<close>

definition has_members :: "FamilyRow \<Rightarrow> string \<Rightarrow> bool" where
  "has_members r k = (case get_prop r k of Some (Many (x # xs)) \<Rightarrow> True | _ \<Rightarrow> False)"

definition map_get_index :: "key list \<Rightarrow> FamilyRow list \<Rightarrow> key \<Rightarrow> nat option" where
  "map_get_index keys rows k =
     (if k \<in> set keys \<and> k \<in> id ` set rows
      then Some (last (filter (\<lambda>i. id (rows ! i) = k) [0..<length rows]))
      else None)"

definition is_male :: "FamilyRow \<Rightarrow> bool" where
  "is_male r = (case get_prop r ''SEX'' of Some (One s) \<Rightarrow> val s = Some ''M'' | _ \<Rightarrow> False)"

definition ref_row :: "key \<Rightarrow> string \<Rightarrow> FamilyRow" where
  "ref_row i t = new_FamilyRow (Some (LNum 1)) i (Some t) None"

text \<open>
  \<^verbatim>\<open>createOrGetFamilyOfPartner(currentFamilyRow, rootFamilyRow)\<close>; \<open>cur\<close> is the position
  of \<^verbatim>\<open>currentFamilyRow\<close> in \<^verbatim>\<open>rootFamilyRow.INDI\<close>. The result is the root and the position
  of the returned family in \<^verbatim>\<open>rootFamilyRow.FAM\<close>, \<open>None\<close> when the Map has no family
  under the id of the first \<^verbatim>\<open>FAMS\<close> entry.
\<close>

definition createOrGetFamilyOfPartner :: "root \<Rightarrow> nat \<Rightarrow> root \<times> nat option" where
  "createOrGetFamilyOfPartner g cur =
     (let currentFamilyRow = rows_of (top g) ''INDI'' ! cur
      in if \<not> has_members currentFamilyRow ''FAMS'' then
           (let fid = Some (nextFamilyID g);
                slot = (if is_male currentFamilyRow then ''HUSB'' else ''WIFE'');
                g1 = addFamToRoot g (new_FamilyRow (Some (LNum 0)) fid (Some ''FAM'') None);
                fam = length (rows_of (top g1) ''FAM'') - 1;
                g2 = update_top g1 (\<lambda>t. update_row t ''INDI'' cur
                        (\<lambda>r. set_prop r ''FAMS'' (Many [ref_row fid ''FAMS''])));
                g3 = update_top g2 (\<lambda>t. update_row t ''FAM'' fam
                        (\<lambda>f. set_prop f slot (Many [ref_row (id currentFamilyRow) slot])))
            in (g3, Some fam))
         else
           (let familyId = id (hd (rows_of currentFamilyRow ''FAMS''))
            in (g, map_get_index (families g) (rows_of (top g) ''FAM'') familyId)))"

text \<open>
  \<^verbatim>\<open>addPartner(currentFamilyRow, rootFamilyRow)\<close>. The slot of the new partner is chosen by
  the partner's own \<^verbatim>\<open>SEX\<close>, which \<^verbatim>\<open>createNewNode\<close> took from the radio buttons. Reading
  \<^verbatim>\<open>familyRow.id\<close> of a family that was not found, or \<^verbatim>\<open>newPartner.SEX.value\<close> when no
  button was checked, throws.
\<close>

definition addPartner :: "root \<Rightarrow> nat \<Rightarrow> string \<Rightarrow> string option \<Rightarrow> outcome" where
  "addPartner g cur newNodeName radio =
     (if length (rows_of (top g) ''INDI'') \<le> cur
      then (g, Some (Unmodelled ''the selected individual is not in the tree''))
      else
       (let (g1, familyRow) = createOrGetFamilyOfPartner g cur;
            g2 = createNewNode g1 newNodeName None radio;
            new = length (rows_of (top g2) ''INDI'') - 1;
            newPartner = rows_of (top g2) ''INDI'' ! new
        in case familyRow of
             None \<Rightarrow> (g2, Some (TypeError ''cannot read id of undefined''))
           | Some fam \<Rightarrow>
               (let fid = id (rows_of (top g2) ''FAM'' ! fam);
                    g3 = update_top g2 (\<lambda>t. update_row t ''INDI'' new
                           (\<lambda>r. set_prop r ''FAMS'' (Many [ref_row fid ''FAMS''])))
                in case get_prop newPartner ''SEX'' of
                     None \<Rightarrow> (g3, Some (TypeError ''cannot read value of undefined''))
                   | Some _ \<Rightarrow>
                       (let slot = (if is_male newPartner then ''HUSB'' else ''WIFE'')
                        in (update_top g3 (\<lambda>t. update_row t ''FAM'' fam
                              (\<lambda>f. if has_members f slot
                                   then set_prop f slot
                                          (Many (rows_of f slot @ [ref_row (id newPartner) slot]))
                                   else set_prop f slot (Many [ref_row (id newPartner) slot]))),
                            None)))))"

subsection \<open>Deleting records\<close>

definition deleteFromMap :: "key list \<Rightarrow> key \<Rightarrow> key list" where
  "deleteFromMap keys i = filter (\<lambda>k. k \<noteq> i) keys"

text \<open>\<^verbatim>\<open>deleteIDFromArray(arrayWithId, id)\<close> on an Array: the first element with the id is
  spliced out. The result is the Array afterwards and the removed elements.\<close>

fun deleteIDFromArray :: "FamilyRow list \<Rightarrow> key \<Rightarrow> FamilyRow list \<times> FamilyRow list" where
  "deleteIDFromArray [] i = ([], [])"
| "deleteIDFromArray (x # xs) i =
     (if id x = i then (xs, [x])
      else (let (ys, removed) = deleteIDFromArray xs i in (x # ys, removed)))"

definition isEmptyFamily :: "FamilyRow \<Rightarrow> bool" where
  "isEmptyFamily familyRow \<longleftrightarrow>
     \<not> has_members familyRow ''CHIL'' \<and> \<not> has_members familyRow ''HUSB'' \<and>
     \<not> has_members familyRow ''WIFE''"

text \<open>
  The step that \<^verbatim>\<open>clearFromFam\<close> and \<^verbatim>\<open>clearFromIndi\<close> repeat for each relationship tag:
  from an Array the first entry with the id is removed, and a single record with the id
  is deleted together with its property. The flag is \<^verbatim>\<open>updated\<close>.
\<close>

definition clear_ref :: "key \<Rightarrow> string \<Rightarrow> FamilyRow \<times> bool \<Rightarrow> FamilyRow \<times> bool" where
  "clear_ref i k ru =
     (case get_prop (fst ru) k of
        None \<Rightarrow> ru
      | Some (Many xs) \<Rightarrow>
          (let (ys, removed) = deleteIDFromArray xs i
           in (set_prop (fst ru) k (Many ys), snd ru \<or> removed \<noteq> []))
      | Some (One x) \<Rightarrow> if id x = i then (delete_prop (fst ru) k, True) else ru)"

text \<open>\<^verbatim>\<open>clearFromIndi(id, rootFamilyRow)\<close>: \<^verbatim>\<open>rootFamilyRow.INDI.forEach\<close> exists only when
  \<^verbatim>\<open>INDI\<close> is an Array.\<close>

definition clearFromIndi :: "key \<Rightarrow> root \<Rightarrow> outcome" where
  "clearFromIndi i g =
     (case get_prop (top g) ''INDI'' of
        Some (Many indis) \<Rightarrow>
          (update_top g (\<lambda>t. set_prop t ''INDI''
              (Many (map (\<lambda>indiRow. fst (clear_ref i ''FAMS'' (clear_ref i ''FAMC'' (indiRow, False))))
                         indis))),
           None)
      | _ \<Rightarrow> (g, Some (TypeError ''rootFamilyRow.INDI.forEach is not a function'')))"

text \<open>\<^verbatim>\<open>deleteFam(familyRow, rootFamilyRow)\<close>; only \<^verbatim>\<open>familyRow.id\<close> is used.
  \<^verbatim>\<open>deleteIDFromArray\<close> calls \<^verbatim>\<open>findIndex\<close>, which exists only on an Array.\<close>

definition deleteFam :: "key \<Rightarrow> root \<Rightarrow> outcome" where
  "deleteFam i g =
     (let g1 = g\<lparr>families := deleteFromMap (families g) i\<rparr>
      in case get_prop (top g1) ''FAM'' of
           Some (Many fams) \<Rightarrow>
             clearFromIndi i
               (update_top g1 (\<lambda>t. set_prop t ''FAM'' (Many (fst (deleteIDFromArray fams i)))))
         | _ \<Rightarrow> (g1, Some (TypeError ''arrayWithId.findIndex is not a function'')))"

text \<open>The callback of \<^verbatim>\<open>clearFromFam\<close> for the family at position \<open>k\<close> of
  \<^verbatim>\<open>rootFamilyRow.FAM\<close>.\<close>

definition clearFromFam_at :: "key \<Rightarrow> nat \<Rightarrow> root \<Rightarrow> outcome" where
  "clearFromFam_at i k g =
     (let familyRow = rows_of (top g) ''FAM'' ! k;
          (familyRow', updated) =
             clear_ref i ''WIFE'' (clear_ref i ''HUSB'' (clear_ref i ''CHIL'' (familyRow, False)));
          g1 = update_top g (\<lambda>t. update_row t ''FAM'' k (\<lambda>_. familyRow'))
      in if updated \<and> isEmptyFamily familyRow' then deleteFam (id familyRow') g1 else (g1, None))"

text \<open>
  \<^verbatim>\<open>Array.prototype.forEach\<close> fixes the number of rounds at the start, visits position
  0, 1, 2, ... and skips a position that the Array no longer has. \<^verbatim>\<open>deleteFam\<close> splices
  the very Array that is being traversed, so after it removed the family at position \<open>k\<close>
  the next round looks at position \<open>k + 1\<close> of the shortened Array. \<open>n\<close> counts the
  rounds that are left.
\<close>

fun forEach_FAM :: "key \<Rightarrow> nat \<Rightarrow> nat \<Rightarrow> root \<Rightarrow> outcome" where
  "forEach_FAM i k 0 g = (g, None)"
| "forEach_FAM i k (Suc n) g =
     (if k < length (rows_of (top g) ''FAM'')
      then and_then (clearFromFam_at i k g) (forEach_FAM i (Suc k) n)
      else forEach_FAM i (Suc k) n g)"

definition clearFromFam :: "key \<Rightarrow> root \<Rightarrow> outcome" where
  "clearFromFam i g =
     (case get_prop (top g) ''FAM'' of
        Some (Many fams) \<Rightarrow> forEach_FAM i 0 (length fams) g
      | _ \<Rightarrow> (g, Some (TypeError ''rootFamilyRow.FAM.forEach is not a function'')))"

text \<open>\<^verbatim>\<open>deleteIndi(indiRow, rootFamilyRow)\<close>; only \<^verbatim>\<open>indiRow.id\<close> is used.\<close>

definition deleteIndi :: "key \<Rightarrow> root \<Rightarrow> outcome" where
  "deleteIndi i g =
     (let g1 = g\<lparr>indviduals := deleteFromMap (indviduals g) i\<rparr>
      in case get_prop (top g1) ''INDI'' of
           Some (Many indis) \<Rightarrow>
             clearFromFam i
               (update_top g1 (\<lambda>t. set_prop t ''INDI'' (Many (fst (deleteIDFromArray indis i)))))
         | _ \<Rightarrow> (g1, Some (TypeError ''arrayWithId.findIndex is not a function'')))"

text \<open>\<^verbatim>\<open>deleteNode()\<close> after the user has confirmed: \<^verbatim>\<open>findRoot(document.dataParsed)\<close> is the
  parsed root itself (its level is the string \<^verbatim>\<open>"-1"\<close>), and the selected record decides
  which deletion runs.\<close>

definition deleteNode :: "FamilyRow \<Rightarrow> root \<Rightarrow> outcome" where
  "deleteNode familyRow g =
     (if tag familyRow = Some ''INDI'' then deleteIndi (id familyRow) g
      else if tag familyRow = Some ''FAM'' then deleteFam (id familyRow) g
      else (g, None))"

section \<open>Claims about the edit operations\<close>

lemma get_prop_set_prop: "get_prop (set_prop r k v) k' = (if k' = k then Some v else get_prop r k')"
  by (simp add: get_prop_def set_prop_def map_of_set_assoc)

lemma fields_set_prop:
  "level (set_prop r k v) = level r" "id (set_prop r k v) = id r"
  "tag (set_prop r k v) = tag r" "val (set_prop r k v) = val r"
  by (simp_all add: set_prop_def)

lemma rows_of_set_prop_Many:
  "rows_of (set_prop r k (Many xs)) k' = (if k' = k then xs else rows_of r k')"
  by (simp add: rows_of_def get_prop_set_prop)

lemma rows_of_update_row:
  "rows_of (update_row r k i f) k' =
     (if k' = k \<and> i < length (rows_of r k) then (rows_of r k)[i := f (rows_of r k ! i)]
      else rows_of r k')"
  by (auto simp: update_row_def rows_of_def get_prop_set_prop split: option.splits slot.splits)

lemma fields_update_row:
  "id (update_row r k i f) = id r" "tag (update_row r k i f) = tag r"
  by (auto simp: update_row_def fields_set_prop split: option.splits slot.splits)

lemma has_members_set_prop:
  "has_members (set_prop r k (Many xs)) k' = (if k' = k then xs \<noteq> [] else has_members r k')"
  by (auto simp: has_members_def get_prop_set_prop split: list.splits)

lemma is_male_set_prop: "k \<noteq> ''SEX'' \<Longrightarrow> is_male (set_prop r k v) = is_male r"
  by (simp add: is_male_def get_prop_set_prop)

lemma get_prop_FamilyRow: "get_prop (FamilyRow l i t v ps) k = map_of ps k"
  by (simp add: get_prop_def)

lemma set_prop_FamilyRow: "set_prop (FamilyRow l i t v ps) k s = FamilyRow l i t v (set_assoc ps k s)"
  by (simp add: set_prop_def)

lemma rows_of_FamilyRow:
  "rows_of (FamilyRow l i t v ps) k =
     (case map_of ps k of None \<Rightarrow> [] | Some (One x) \<Rightarrow> [x] | Some (Many xs) \<Rightarrow> xs)"
  by (simp add: rows_of_def get_prop_def)

lemma has_members_FamilyRow:
  "has_members (FamilyRow l i t v ps) k =
     (case map_of ps k of Some (Many (x # xs)) \<Rightarrow> True | _ \<Rightarrow> False)"
  by (simp add: has_members_def get_prop_def)

lemma is_male_FamilyRow:
  "is_male (FamilyRow l i t v ps) =
     (case map_of ps ''SEX'' of Some (One s) \<Rightarrow> val s = Some ''M'' | _ \<Rightarrow> False)"
  by (simp add: is_male_def get_prop_def)

text \<open>A tree with one man, \<^verbatim>\<open>@I1@\<close>, who has no \<^verbatim>\<open>FAMS\<close>.\<close>

definition single_man_lines :: "string list" where
  "single_man_lines = [''0 @I1@ INDI'', ''1 NAME You'', ''1 SEX M'']"

text \<open>
  Claim C6, as stated: \<^verbatim>\<open>addPartner\<close> on an individual without \<^verbatim>\<open>FAMS\<close> creates a family,
  sets the individual's \<^verbatim>\<open>FAMS\<close> and puts the new partner into the slot opposite to the
  selected individual's \<^verbatim>\<open>SEX\<close>. With the man \<^verbatim>\<open>@I1@\<close> selected and \<^verbatim>\<open>Male\<close> checked for the
  new person, the new family \<^verbatim>\<open>@F1@\<close> lists both \<^verbatim>\<open>@I1@\<close> and the new \<^verbatim>\<open>@I2@\<close> under
  \<^verbatim>\<open>HUSB\<close> and nobody under \<^verbatim>\<open>WIFE\<close>.
\<close>

theorem addPartner_same_slot_counterexample:
  "snd (addPartner (lines_root single_man_lines) 0 ''Jo'' (Some ''M'')) = None \<and>
   map (\<lambda>f. (id f, map id (rows_of f ''HUSB''), map id (rows_of f ''WIFE'')))
       (rows_of (top (fst (addPartner (lines_root single_man_lines) 0 ''Jo'' (Some ''M'')))) ''FAM'')
     = [(Some ''@F1@'', [Some ''@I1@'', Some ''@I2@''], [])]"
  by code_simp

text \<open>
  Claim C6, amended: \<^verbatim>\<open>addPartner\<close> on an individual without \<^verbatim>\<open>FAMS\<close>, with a gender
  checked for the new person, appends a new family with the next free family id to
  \<^verbatim>\<open>rootFamilyRow.FAM\<close>, sets the individual's \<^verbatim>\<open>FAMS\<close> to that family, and appends the new
  partner, whose \<^verbatim>\<open>FAMS\<close> is that family too, to \<^verbatim>\<open>rootFamilyRow.INDI\<close>. The selected
  individual is entered under \<^verbatim>\<open>HUSB\<close> if its \<^verbatim>\<open>SEX\<close> is \<^verbatim>\<open>M\<close> and under \<^verbatim>\<open>WIFE\<close> if not; the
  partner is entered under \<^verbatim>\<open>HUSB\<close> if the gender checked for it is \<^verbatim>\<open>M\<close> and under
  \<^verbatim>\<open>WIFE\<close> if not, behind the selected individual when both fall into the same slot. So
  the partner is in the opposite slot exactly when one of the two is \<^verbatim>\<open>M\<close> and the other
  is not.
\<close>

theorem addPartner_slots:
  assumes c: "cur < length (rows_of (top g) ''INDI'')"
    and nf: "\<not> has_members (rows_of (top g) ''INDI'' ! cur) ''FAMS''"
    and gd: "truthy radio"
  shows "\<exists>g' fam partner.
     addPartner g cur newNodeName radio = (g', None) \<and>
     rows_of (top g') ''FAM'' = rows_of (top g) ''FAM'' @ [fam] \<and>
     rows_of (top g') ''INDI'' =
       (rows_of (top g) ''INDI'')
         [cur := set_prop (rows_of (top g) ''INDI'' ! cur) ''FAMS''
                   (Many [ref_row (Some (nextFamilyID g)) ''FAMS''])] @ [partner] \<and>
     id fam = Some (nextFamilyID g) \<and> tag fam = Some ''FAM'' \<and>
     id partner = Some (nextIndividualID g) \<and> tag partner = Some ''INDI'' \<and>
     map id (rows_of partner ''FAMS'') = [Some (nextFamilyID g)] \<and>
     map id (rows_of fam ''HUSB'') =
       (if is_male (rows_of (top g) ''INDI'' ! cur) then [id (rows_of (top g) ''INDI'' ! cur)] else []) @
       (if radio = Some ''M'' then [id partner] else []) \<and>
     map id (rows_of fam ''WIFE'') =
       (if is_male (rows_of (top g) ''INDI'' ! cur) then [] else [id (rows_of (top g) ''INDI'' ! cur)]) @
       (if radio = Some ''M'' then [] else [id partner])"
  using assms
  by (simp add: addPartner_def createOrGetFamilyOfPartner_def createNewNode_def Let_def
      addFamToRoot_def addIndiToRoot_def update_top_def rows_of_set_prop_Many rows_of_update_row
      fields_update_row fields_set_prop new_FamilyRow_def ref_row_def truthy_def nth_append
      get_prop_set_prop has_members_set_prop is_male_set_prop nextIndividualID_def
      get_prop_FamilyRow set_prop_FamilyRow rows_of_FamilyRow has_members_FamilyRow
      is_male_FamilyRow list_update_append
      split: option.splits)

theorem addPartner_slots_witness:
  "snd (addPartner (lines_root single_man_lines) 0 ''Ann'' (Some ''F'')) = None \<and>
   map id (rows_of (last (rows_of (top (fst (addPartner (lines_root single_man_lines) 0 ''Ann'' (Some ''F'')))) ''FAM'')) ''HUSB'')
     = [Some ''@I1@''] \<and>
   map id (rows_of (last (rows_of (top (fst (addPartner (lines_root single_man_lines) 0 ''Ann'' (Some ''F'')))) ''FAM'')) ''WIFE'')
     = [Some ''@I2@'']"
proof -
  define g where "g = lines_root single_man_lines"
  have c: "0 < length (rows_of (top g) ''INDI'')" unfolding g_def by code_simp
  have nf: "\<not> has_members (rows_of (top g) ''INDI'' ! 0) ''FAMS''" unfolding g_def by code_simp
  have gd: "truthy (Some ''F'')" by (simp add: truthy_def)
  have m: "is_male (rows_of (top g) ''INDI'' ! 0)" unfolding g_def by code_simp
  have i: "id (rows_of (top g) ''INDI'' ! 0) = Some ''@I1@''" unfolding g_def by code_simp
  have n: "nextIndividualID g = ''@I2@''" unfolding g_def by code_simp
  from addPartner_slots [OF c nf gd, of "''Ann''"]
  obtain g' fam partner where
    a: "addPartner g 0 ''Ann'' (Some ''F'') = (g', None)"
    and f: "rows_of (top g') ''FAM'' = rows_of (top g) ''FAM'' @ [fam]"
    and p: "id partner = Some (nextIndividualID g)"
    and h: "map id (rows_of fam ''HUSB'') =
       (if is_male (rows_of (top g) ''INDI'' ! 0) then [id (rows_of (top g) ''INDI'' ! 0)] else []) @
       (if Some ''F'' = Some ''M'' then [id partner] else [])"
    and w: "map id (rows_of fam ''WIFE'') =
       (if is_male (rows_of (top g) ''INDI'' ! 0) then [] else [id (rows_of (top g) ''INDI'' ! 0)]) @
       (if Some ''F'' = Some ''M'' then [] else [id partner])"
    by blast
  from f have l: "last (rows_of (top g') ''FAM'') = fam" by simp
  from a have s: "snd (addPartner g 0 ''Ann'' (Some ''F'')) = None"
    and t: "fst (addPartner g 0 ''Ann'' (Some ''F'')) = g'" by simp_all
  from h m i have h': "map id (rows_of fam ''HUSB'') = [Some ''@I1@'']" by simp
  from w m p n have w': "map id (rows_of fam ''WIFE'') = [Some ''@I2@'']" by simp
  from s t l h' w' show ?thesis unfolding g_def by simp
qed

text \<open>
  Claims C3 and C8 are about deletion. In Scenario A the root has three individuals and one
  family, so \<^verbatim>\<open>parseLine\<close> stores \<^verbatim>\<open>INDI\<close> as an Array and \<^verbatim>\<open>FAM\<close> as a single record.
  Deleting \<^verbatim>\<open>@I2@\<close> (Scenario C) removes it from the Map and from the \<^verbatim>\<open>INDI\<close> Array; then
  \<^verbatim>\<open>clearFromFam\<close> calls \<^verbatim>\<open>rootFamilyRow.FAM.forEach\<close> on the single record and throws.
  The family \<^verbatim>\<open>@F1@\<close> is left as it was and still names \<^verbatim>\<open>@I2@\<close> as its husband.
\<close>

theorem deleteIndi_scenario_C:
  "snd (deleteIndi (Some ''@I2@'') (lines_root scenario_A)) =
     Some (TypeError ''rootFamilyRow.FAM.forEach is not a function'') \<and>
   indviduals (fst (deleteIndi (Some ''@I2@'') (lines_root scenario_A))) =
     [Some ''@I1@'', Some ''@I3@''] \<and>
   map id (rows_of (top (fst (deleteIndi (Some ''@I2@'') (lines_root scenario_A)))) ''INDI'') =
     [Some ''@I1@'', Some ''@I3@''] \<and>
   map (\<lambda>f. (id f, map id (rows_of f ''HUSB''), map id (rows_of f ''WIFE''), map id (rows_of f ''CHIL'')))
       (rows_of (top (fst (deleteIndi (Some ''@I2@'') (lines_root scenario_A)))) ''FAM'') =
     [(Some ''@F1@'', [Some ''@I2@''], [Some ''@I3@''], [Some ''@I1@''])]"
  by code_simp

text \<open>
  With two families in the root \<^verbatim>\<open>FAM\<close> is an Array and nothing throws, but the cascade
  still misses a family. \<^verbatim>\<open>@I1@\<close> is the only member of \<^verbatim>\<open>@F1@\<close> and the husband in
  \<^verbatim>\<open>@F2@\<close>. Deleting him empties \<^verbatim>\<open>@F1@\<close>, which \<^verbatim>\<open>deleteFam\<close> splices out of the Array
  that \<^verbatim>\<open>forEach\<close> is traversing; \<^verbatim>\<open>@F2@\<close> moves to position 0, which has been visited, and
  is never cleaned: it still names \<^verbatim>\<open>@I1@\<close> as its husband.
\<close>

definition two_families_lines :: "string list" where
  "two_families_lines =
     [''0 @I1@ INDI'', ''1 SEX M'', ''1 FAMS @F1@'', ''1 FAMS @F2@'',
      ''0 @I2@ INDI'', ''1 SEX F'', ''1 FAMS @F2@'',
      ''0 @F1@ FAM'', ''1 HUSB @I1@'',
      ''0 @F2@ FAM'', ''1 HUSB @I1@'', ''1 WIFE @I2@'']"

lemma deleteIndi_skips_next_family:
  "snd (deleteIndi (Some ''@I1@'') (lines_root two_families_lines)) = None \<and>
   indviduals (fst (deleteIndi (Some ''@I1@'') (lines_root two_families_lines))) = [Some ''@I2@''] \<and>
   map (\<lambda>f. (id f, map id (rows_of f ''HUSB''), map id (rows_of f ''WIFE'')))
       (rows_of (top (fst (deleteIndi (Some ''@I1@'') (lines_root two_families_lines)))) ''FAM'') =
     [(Some ''@F2@'', [Some ''@I1@''], [Some ''@I2@''])]"
  by code_simp

text \<open>
  Claim C8 says that no deletion throws, however many \<^verbatim>\<open>INDI\<close> or \<^verbatim>\<open>FAM\<close> records the
  root has. The tree that \<open>parse\<close> builds without input has one individual, stored as a
  single record: deleting it takes \<^verbatim>\<open>@I1@\<close> out of the Map and then throws in
  \<^verbatim>\<open>deleteIDFromArray\<close>, so the record stays in the tree. Deleting the one family of
  Scenario A throws in the same place after the family has left the Map.
\<close>

theorem delete_single_record_throws:
  "snd (deleteNode (new_FamilyRow (Some (LStr ''0'')) (Some ''@I1@'') (Some ''INDI'') None) (lines_root [])) =
     Some (TypeError ''arrayWithId.findIndex is not a function'') \<and>
   indviduals (fst (deleteNode (new_FamilyRow (Some (LStr ''0'')) (Some ''@I1@'') (Some ''INDI'') None) (lines_root []))) = [] \<and>
   map id (rows_of (top (fst (deleteNode (new_FamilyRow (Some (LStr ''0'')) (Some ''@I1@'') (Some ''INDI'') None) (lines_root [])))) ''INDI'') =
     [Some ''@I1@''] \<and>
   snd (deleteNode (new_FamilyRow (Some (LStr ''0'')) (Some ''@F1@'') (Some ''FAM'') None) (lines_root scenario_A)) =
     Some (TypeError ''arrayWithId.findIndex is not a function'') \<and>
   families (fst (deleteNode (new_FamilyRow (Some (LStr ''0'')) (Some ''@F1@'') (Some ''FAM'') None) (lines_root scenario_A))) = [] \<and>
   map id (rows_of (top (fst (deleteNode (new_FamilyRow (Some (LStr ''0'')) (Some ''@F1@'') (Some ''FAM'') None) (lines_root scenario_A)))) ''FAM'') =
     [Some ''@F1@'']"
  by code_simp

section \<open>Writing the tree back as lines\<close>

text \<open>
  \<^verbatim>\<open>FamilyRow.toString()\<close>. The id is written before the tag when \<^verbatim>\<open>level == 0\<close> and after
  it otherwise. The comparison is loose, so a string level is read as a number first; the
  model reads the integer literals, as the parser model does.
\<close>

definition level_text :: "FamilyRow \<Rightarrow> string" where
  "level_text r =
     (case level r of None \<Rightarrow> [] | Some (LStr s) \<Rightarrow> s | Some (LNum n) \<Rightarrow> string_of_int n)"

definition level_is_zero :: "FamilyRow \<Rightarrow> bool" where
  "level_is_zero r = (num_level r = Some 0)"

definition toString :: "FamilyRow \<Rightarrow> string" where
  "toString r =
     level_text r @
     (case id r of None \<Rightarrow> [] | Some i \<Rightarrow> if level_is_zero r then CHR '' '' # i else []) @
     (case tag r of None \<Rightarrow> [] | Some t \<Rightarrow> CHR '' '' # t) @
     (case id r of None \<Rightarrow> [] | Some i \<Rightarrow> if \<not> level_is_zero r then CHR '' '' # i else []) @
     (case val r of None \<Rightarrow> [] | Some v \<Rightarrow> CHR '' '' # v)"

text \<open>
  \<^verbatim>\<open>createFileContentOne(familyRow)\<close>: the row's own line, then every property that holds a
  record or an Array of records, in property order. The fields of the row itself are
  strings, numbers and Maps and are passed over by the type test.
\<close>

fun createFileContentOne :: "FamilyRow \<Rightarrow> string" where
  "createFileContentOne (FamilyRow l i t v ps) =
     toString (FamilyRow l i t v ps) @ [CHR 0x0A] @
     concat (map (\<lambda>(key, value).
                    case value of
                      One r \<Rightarrow> createFileContentOne r
                    | Many rs \<Rightarrow> concat (map createFileContentOne rs)) ps)"

text \<open>
  \<^verbatim>\<open>createFileContent(familyRowHead)\<close>: the loop over the properties of the root collects
  three texts. A single record under \<^verbatim>\<open>HEAD\<close> goes to \<^verbatim>\<open>first\<close>, a single record under
  \<^verbatim>\<open>TRLR\<close> to \<^verbatim>\<open>last\<close> (here \<open>last'\<close>), everything else to \<^verbatim>\<open>middle\<close>. The root's own line is not written.
\<close>

fun collect_top ::
  "(string \<times> FamilyRow slot) list \<Rightarrow> string \<times> string \<times> string \<Rightarrow> string \<times> string \<times> string" where
  "collect_top [] fml = fml"
| "collect_top ((key, value) # ps) (first, middle, last') =
     (case value of
        One r \<Rightarrow>
          (if key = ''HEAD'' then collect_top ps (first @ createFileContentOne r, middle, last')
           else if key = ''TRLR'' then collect_top ps (first, middle, last' @ createFileContentOne r)
           else collect_top ps (first, middle @ createFileContentOne r, last'))
      | Many rs \<Rightarrow> collect_top ps (first, middle @ concat (map createFileContentOne rs), last'))"

definition createFileContent :: "FamilyRow \<Rightarrow> string" where
  "createFileContent familyRowHead =
     (case collect_top (props familyRowHead) ([], [], []) of
        (first, middle, last') \<Rightarrow> first @ middle @ last')"

text \<open>\<^verbatim>\<open>importGedComText(text)\<close> stores \<^verbatim>\<open>text.split('\n')\<close> as the lines to parse.\<close>

fun split_nl :: "string \<Rightarrow> string list" where
  "split_nl [] = [[]]"
| "split_nl (c # cs) =
     (if c = CHR 0x0A then [] # split_nl cs
      else (case split_nl cs of [] \<Rightarrow> [[c]] | w # ws \<Rightarrow> (c # w) # ws))"

definition importGedComText :: "string \<Rightarrow> string list" where
  "importGedComText text = split_nl text"

section \<open>Reading the written text\<close>

text \<open>
  The tree that the written text parses to has the properties of the root in the order in
  which they were written: a single \<^verbatim>\<open>HEAD\<close> first, a single \<^verbatim>\<open>TRLR\<close> last. Every
  tag holds the same records as before.
\<close>

definition is_head :: "string \<times> FamilyRow slot \<Rightarrow> bool" where
  "is_head kv = (case snd kv of One _ \<Rightarrow> fst kv = ''HEAD'' | Many _ \<Rightarrow> False)"

definition is_trlr :: "string \<times> FamilyRow slot \<Rightarrow> bool" where
  "is_trlr kv = (case snd kv of One _ \<Rightarrow> fst kv = ''TRLR'' | Many _ \<Rightarrow> False)"

definition written_order :: "(string \<times> FamilyRow slot) list \<Rightarrow> (string \<times> FamilyRow slot) list" where
  "written_order ps =
     filter is_head ps @ filter (\<lambda>kv. \<not> is_head kv \<and> \<not> is_trlr kv) ps @ filter is_trlr ps"

definition head_first :: "FamilyRow \<Rightarrow> FamilyRow" where
  "head_first t = FamilyRow (level t) (id t) (tag t) (val t) (written_order (props t))"

text \<open>
  What is asked of a line. Its level is a whole number that is not negative, its tag is
  within the model, it is written back without a line feed, and by itself it survives being written
  by \<open>toString\<close> and read by \<open>formatLine\<close> again.
\<close>

definition line_ok :: "string \<Rightarrow> bool" where
  "line_ok line =
     (let r = formatLine (trim line)
      in (case num_level r of None \<Rightarrow> False | Some n \<Rightarrow> 0 \<le> n) \<and>
         (case tag r of None \<Rightarrow> False | Some t \<Rightarrow> modelled_tag t) \<and>
         CHR 0x0A \<notin> set (toString r) \<and>
         formatLine (trim (toString r)) = r)"

text \<open>What is asked of the levels: the first line has level 0 and no line is more than
  one level deeper than the line before it.\<close>

fun steps_ok :: "int \<Rightarrow> int list \<Rightarrow> bool" where
  "steps_ok prev [] = True"
| "steps_ok prev (n # ns) = (0 \<le> n \<and> n \<le> prev + 1 \<and> steps_ok n ns)"

definition line_level :: "string \<Rightarrow> int" where
  "line_level line = (case num_level (formatLine (trim line)) of None \<Rightarrow> 0 | Some n \<Rightarrow> n)"

definition wf_lines :: "string list \<Rightarrow> bool" where
  "wf_lines lines =
     (let kept = filter (\<lambda>line. line \<noteq> []) (map trim lines)
      in list_all line_ok kept \<and> steps_ok (- 1) (map line_level kept))"

subsection \<open>The written lines\<close>

definition slot_rows :: "FamilyRow slot \<Rightarrow> FamilyRow list" where
  "slot_rows sl = (case sl of One r \<Rightarrow> [r] | Many rs \<Rightarrow> rs)"

definition kids :: "(string \<times> FamilyRow slot) list \<Rightarrow> FamilyRow list" where
  "kids ps = concat (map (\<lambda>kv. slot_rows (snd kv)) ps)"

fun ser_lines :: "FamilyRow \<Rightarrow> string list" where
  "ser_lines (FamilyRow l i t v ps) =
     toString (FamilyRow l i t v ps) #
     concat (map (\<lambda>(key, value).
                    case value of
                      One r \<Rightarrow> ser_lines r
                    | Many rs \<Rightarrow> concat (map ser_lines rs)) ps)"

definition hdr :: "FamilyRow \<Rightarrow> FamilyRow" where
  "hdr r = FamilyRow (level r) (id r) (tag r) (val r) []"

definition text_of :: "string list \<Rightarrow> string" where
  "text_of ls = concat (map (\<lambda>l. l @ [CHR 0x0A]) ls)"

lemma text_of_append: "text_of (xs @ ys) = text_of xs @ text_of ys"
  by (simp add: text_of_def)

lemma text_of_concat: "text_of (concat xss) = concat (map text_of xss)"
  by (induction xss) (simp_all add: text_of_append, simp add: text_of_def)

lemma slot_lines:
  "(case value of One r \<Rightarrow> ser_lines r | Many rs \<Rightarrow> concat (map ser_lines rs)) =
   concat (map ser_lines (slot_rows value))"
  by (cases "value") (simp_all add: slot_rows_def)

lemma ser_lines_kids:
  "ser_lines (FamilyRow l i t v ps) =
     toString (FamilyRow l i t v ps) # concat (map ser_lines (kids ps))"
proof -
  have "concat (map (\<lambda>(key, value). case value of One r \<Rightarrow> ser_lines r
                                   | Many rs \<Rightarrow> concat (map ser_lines rs)) ps)
        = concat (map ser_lines (kids ps))"
    by (induction ps) (auto simp: kids_def slot_lines)
  then show ?thesis by simp
qed

lemma hdr_fields [simp]:
  "level (hdr r) = level r" "id (hdr r) = id r" "tag (hdr r) = tag r" "val (hdr r) = val r"
  "props (hdr r) = []"
  by (simp_all add: hdr_def)

lemma num_level_hdr [simp]: "num_level (hdr r) = num_level r"
  by (simp add: num_level_def)

lemma toString_cong:
  assumes "level a = level b" "id a = id b" "tag a = tag b" "val a = val b"
  shows "toString a = toString b"
proof -
  have z: "level_is_zero a = level_is_zero b"
    by (simp add: level_is_zero_def num_level_def assms)
  show ?thesis unfolding toString_def level_text_def z assms ..
qed

lemma toString_hdr: "toString (hdr r) = toString r"
  by (rule toString_cong) simp_all

lemma createFileContentOne_text: "createFileContentOne c = text_of (ser_lines c)"
proof (induction c rule: createFileContentOne.induct)
  case (1 l i t v ps)
  have "concat (map (\<lambda>(key, value). case value of One r \<Rightarrow> createFileContentOne r
                       | Many rs \<Rightarrow> concat (map createFileContentOne rs)) ps)
        = concat (map (\<lambda>(key, value). text_of (case value of One r \<Rightarrow> ser_lines r
                       | Many rs \<Rightarrow> concat (map ser_lines rs))) ps)"
  proof (rule arg_cong [where f = concat], rule map_cong [OF refl])
    fix kv assume kv: "kv \<in> set ps"
    obtain key "value" where e: "kv = (key, value)" by (cases kv)
    show "(case kv of (key, value) \<Rightarrow> case value of One r \<Rightarrow> createFileContentOne r
                       | Many rs \<Rightarrow> concat (map createFileContentOne rs))
        = (case kv of (key, value) \<Rightarrow> text_of (case value of One r \<Rightarrow> ser_lines r
                       | Many rs \<Rightarrow> concat (map ser_lines rs)))"
    proof (cases "value")
      case (One r)
      with 1(1) [OF kv e [symmetric]] e show ?thesis by simp
    next
      case (Many rs)
      have "concat (map createFileContentOne rs) = concat (map text_of (map ser_lines rs))"
        using 1(2) [OF kv e [symmetric] Many] by (simp cong: map_cong)
      with e Many show ?thesis by (simp add: text_of_concat)
    qed
  qed
  also have "\<dots> = text_of (concat (map (\<lambda>(key, value). case value of One r \<Rightarrow> ser_lines r
                       | Many rs \<Rightarrow> concat (map ser_lines rs)) ps))"
    by (simp add: text_of_concat comp_def case_prod_unfold)
  finally show ?case by (simp add: text_of_def)
qed

lemma createFileContentOne_fun: "createFileContentOne = (\<lambda>c. text_of (ser_lines c))"
  by (rule ext) (rule createFileContentOne_text)

lemma collect_top_filter:
  "collect_top ps (first, middle, last') =
     (first @ text_of (concat (map ser_lines (kids (filter is_head ps)))),
      middle @ text_of (concat (map ser_lines (kids (filter (\<lambda>kv. \<not> is_head kv \<and> \<not> is_trlr kv) ps)))),
      last' @ text_of (concat (map ser_lines (kids (filter is_trlr ps)))))"
proof (induction ps arbitrary: first middle last')
  case Nil
  show ?case by (simp add: kids_def text_of_def)
next
  case (Cons kv ps)
  obtain key "value" where e: "kv = (key, value)" by (cases kv)
  show ?case
  proof (cases "value")
    case (One r)
    then show ?thesis
      using e Cons
      by (auto simp: is_head_def is_trlr_def kids_def slot_rows_def createFileContentOne_text
            text_of_append text_of_concat)
  next
    case (Many rs)
    then show ?thesis
      using e Cons
      by (simp add: is_head_def is_trlr_def kids_def slot_rows_def createFileContentOne_fun
            text_of_append text_of_concat comp_def)
  qed
qed

lemma kids_append: "kids (xs @ ys) = kids xs @ kids ys"
  by (simp add: kids_def)

lemma createFileContent_text:
  "createFileContent t = text_of (concat (map ser_lines (kids (written_order (props t)))))"
  by (simp add: createFileContent_def collect_top_filter written_order_def kids_append text_of_append)

lemma split_nl_nonempty: "split_nl s \<noteq> []"
  by (induction s) (auto split: list.splits)

lemma split_nl_line: "CHR 0x0A \<notin> set l \<Longrightarrow> split_nl (l @ CHR 0x0A # s) = l # split_nl s"
proof (induction l)
  case Nil
  show ?case by simp
next
  case (Cons c l)
  then show ?case by (cases "split_nl s") (use split_nl_nonempty in auto)
qed

lemma split_nl_text_of:
  "\<forall>l \<in> set ls. CHR 0x0A \<notin> set l \<Longrightarrow> split_nl (text_of ls) = ls @ [[]]"
  by (induction ls) (auto simp: text_of_def split_nl_line)

subsection \<open>Trees that attach builds\<close>

definition slot_ok :: "string \<Rightarrow> FamilyRow slot \<Rightarrow> bool" where
  "slot_ok k sl =
     (case sl of
        One r \<Rightarrow> tag r = Some k \<and> k \<notin> set relation_tags
      | Many rs \<Rightarrow> (\<forall>r \<in> set rs. tag r = Some k) \<and>
                   (if k \<in> set relation_tags then rs \<noteq> [] else 2 \<le> length rs))"

definition canonical_props :: "(string \<times> FamilyRow slot) list \<Rightarrow> bool" where
  "canonical_props ps \<longleftrightarrow> distinct (map fst ps) \<and> (\<forall>kv \<in> set ps. slot_ok (fst kv) (snd kv))"

lemma set_assoc_new: "k \<notin> fst ` set qs \<Longrightarrow> set_assoc qs k v = qs @ [(k, v)]"
  by (induction qs) auto

lemma set_assoc_last: "k \<notin> fst ` set qs \<Longrightarrow> set_assoc (qs @ [(k, v)]) k v' = qs @ [(k, v')]"
  by (induction qs) auto

lemma map_of_last: "k \<notin> fst ` set qs \<Longrightarrow> map_of (qs @ [(k, v)]) k = Some v"
  by (induction qs) auto

lemma map_of_absent: "k \<notin> fst ` set qs \<Longrightarrow> map_of qs k = None"
  by (induction qs) auto

lemma attach_FamilyRow:
  "tag e = Some k \<Longrightarrow>
   attach (FamilyRow l i t v qs) e =
     FamilyRow l i t v
       (case map_of qs k of
          Some (Many rs) \<Rightarrow> set_assoc qs k (Many (rs @ [e]))
        | Some (One r) \<Rightarrow> set_assoc qs k (Many [r, e])
        | None \<Rightarrow> if k \<in> set relation_tags then set_assoc qs k (Many [e])
                  else set_assoc qs k (One e))"
  by (simp add: attach_def get_prop_def set_prop_def split: option.splits slot.splits)

lemma attach_fields [simp]:
  "level (attach p e) = level p" "id (attach p e) = id p" "tag (attach p e) = tag p"
  "val (attach p e) = val p"
  by (simp_all add: attach_def set_prop_def Let_def split: option.splits slot.splits)

lemma hdr_attach [simp]: "hdr (attach p e) = hdr p"
  by (simp add: hdr_def)

lemma num_level_attach [simp]: "num_level (attach p e) = num_level p"
  by (simp add: num_level_def)

lemma level_gt_attach [simp]: "level_gt (attach p e) n = level_gt p n"
  by (simp add: level_gt_def)

text \<open>Appending further rows with the tag of the last property.\<close>

lemma build_more:
  "k \<notin> fst ` set qs \<Longrightarrow> \<forall>r \<in> set rs. tag r = Some k \<Longrightarrow>
   fold (\<lambda>c P. attach P c) rs (FamilyRow l i t v (qs @ [(k, Many xs)])) =
     FamilyRow l i t v (qs @ [(k, Many (xs @ rs))])"
proof (induction rs arbitrary: xs)
  case Nil
  show ?case by simp
next
  case (Cons r rs)
  from Cons.prems have t: "tag r = Some k" by simp
  have "attach (FamilyRow l i t v (qs @ [(k, Many xs)])) r =
          FamilyRow l i t v (qs @ [(k, Many (xs @ [r]))])"
    using Cons.prems(1)
    by (simp add: attach_FamilyRow [OF t] map_add_def map_of_absent set_assoc_last)
  with Cons.IH [OF Cons.prems(1), of "xs @ [r]"] Cons.prems(2) show ?case by simp
qed

lemma build_slot:
  assumes k: "k \<notin> fst ` set qs" and ok: "slot_ok k sl"
  shows "fold (\<lambda>c P. attach P c) (slot_rows sl) (FamilyRow l i t v qs) =
           FamilyRow l i t v (qs @ [(k, sl)])"
proof (cases sl)
  case (One r)
  with ok have t: "tag r = Some k" and n: "k \<notin> set relation_tags" by (simp_all add: slot_ok_def)
  show ?thesis
    using One k n by (simp add: slot_rows_def attach_FamilyRow [OF t] map_of_absent set_assoc_new)
next
  case (Many rs)
  with ok have tags: "\<forall>r \<in> set rs. tag r = Some k"
    and len: "if k \<in> set relation_tags then rs \<noteq> [] else 2 \<le> length rs"
    by (simp_all add: slot_ok_def)
  show ?thesis
  proof (cases "k \<in> set relation_tags")
    case True
    with len obtain r rs' where rs: "rs = r # rs'" by (cases rs) auto
    with tags have t: "tag r = Some k" and tags': "\<forall>r \<in> set rs'. tag r = Some k" by simp_all
    have "attach (FamilyRow l i t v qs) r = FamilyRow l i t v (qs @ [(k, Many [r])])"
      using k True by (simp add: attach_FamilyRow [OF t] map_of_absent set_assoc_new)
    with build_more [OF k tags', of l i t v "[r]"] Many rs show ?thesis
      by (simp add: slot_rows_def)
  next
    case False
    with len obtain r r' rs' where rs: "rs = r # r' # rs'"
      by (cases rs; cases "tl rs") auto
    with tags have t: "tag r = Some k" and t': "tag r' = Some k"
      and tags': "\<forall>r \<in> set rs'. tag r = Some k" by simp_all
    have a: "attach (FamilyRow l i t v qs) r = FamilyRow l i t v (qs @ [(k, One r)])"
      using k False by (simp add: attach_FamilyRow [OF t] map_of_absent set_assoc_new)
    have b: "attach (FamilyRow l i t v (qs @ [(k, One r)])) r' =
               FamilyRow l i t v (qs @ [(k, Many [r, r'])])"
      using k by (simp add: attach_FamilyRow [OF t'] map_add_def map_of_absent set_assoc_last)
    from a b build_more [OF k tags', of l i t v "[r, r']"] Many rs show ?thesis
      by (simp add: slot_rows_def)
  qed
qed

lemma build_props:
  "distinct (map fst (qs @ ps)) \<Longrightarrow> \<forall>kv \<in> set ps. slot_ok (fst kv) (snd kv) \<Longrightarrow>
   fold (\<lambda>c P. attach P c) (kids ps) (FamilyRow l i t v qs) = FamilyRow l i t v (qs @ ps)"
proof (induction ps arbitrary: qs)
  case Nil
  show ?case by (simp add: kids_def)
next
  case (Cons kv ps)
  obtain k sl where e: "kv = (k, sl)" by (cases kv)
  from Cons.prems e have k: "k \<notin> fst ` set qs" and ok: "slot_ok k sl" by auto
  from Cons.prems e have d: "distinct (map fst ((qs @ [(k, sl)]) @ ps))" by simp
  from Cons.prems have oks: "\<forall>kv \<in> set ps. slot_ok (fst kv) (snd kv)" by simp
  have "fold (\<lambda>c P. attach P c) (kids (kv # ps)) (FamilyRow l i t v qs) =
        fold (\<lambda>c P. attach P c) (kids ps)
          (fold (\<lambda>c P. attach P c) (slot_rows sl) (FamilyRow l i t v qs))"
    by (simp add: kids_def e)
  also have "\<dots> = fold (\<lambda>c P. attach P c) (kids ps) (FamilyRow l i t v (qs @ [(k, sl)]))"
    by (simp add: build_slot [OF k ok])
  also have "\<dots> = FamilyRow l i t v ((qs @ [(k, sl)]) @ ps)"
    by (rule Cons.IH [OF d oks])
  finally show ?case by (simp add: e)
qed

lemma build_row:
  "canonical_props (props c) \<Longrightarrow> fold (\<lambda>k P. attach P k) (kids (props c)) (hdr c) = c"
  using build_props [of "[]" "props c" "level c" "id c" "tag c" "val c"]
  by (simp add: canonical_props_def hdr_def)

text \<open>attach keeps a tree in this form.\<close>

lemma slot_ok_keys_set_assoc:
  "fst ` set (set_assoc qs k v) = insert k (fst ` set qs)"
proof (induction qs)
  case Nil
  show ?case by simp
next
  case (Cons kv qs)
  obtain a b where e: "kv = (a, b)" by (cases kv)
  show ?case
  proof (cases "a = k")
    case True
    with e show ?thesis by simp
  next
    case False
    with e Cons.IH show ?thesis by auto
  qed
qed

lemma distinct_set_assoc: "distinct (map fst qs) \<Longrightarrow> distinct (map fst (set_assoc qs k v))"
proof (induction qs)
  case Nil
  show ?case by simp
next
  case (Cons kv qs)
  obtain a b where e: "kv = (a, b)" by (cases kv)
  show ?case
  proof (cases "a = k")
    case True
    with Cons.prems e show ?thesis by simp
  next
    case False
    from Cons.prems e have "a \<notin> fst ` set qs" and "distinct (map fst qs)" by simp_all
    with Cons.IH False e slot_ok_keys_set_assoc [of qs k v] show ?thesis by simp
  qed
qed

lemma set_set_assoc:
  "distinct (map fst qs) \<Longrightarrow>
   set (set_assoc qs k v) = insert (k, v) {kv \<in> set qs. fst kv \<noteq> k}"
proof (induction qs)
  case Nil
  show ?case by simp
next
  case (Cons kv qs)
  obtain a b where e: "kv = (a, b)" by (cases kv)
  from Cons.prems e have na: "a \<notin> fst ` set qs" and d: "distinct (map fst qs)" by simp_all
  show ?case
  proof (cases "a = k")
    case True
    have l: "set (set_assoc (kv # qs) k v) = insert (k, v) (set qs)"
      using True e by simp
    have "\<forall>x \<in> set qs. fst x \<noteq> k" using na True by force
    then have r: "{x \<in> set (kv # qs). fst x \<noteq> k} = set qs"
      using True e by fastforce
    show ?thesis unfolding l r ..
  next
    case False
    have l: "set (set_assoc (kv # qs) k v) =
               insert (a, b) (insert (k, v) {x \<in> set qs. fst x \<noteq> k})"
      using False e Cons.IH [OF d] by simp
    have r: "{x \<in> set (kv # qs). fst x \<noteq> k} = insert (a, b) {x \<in> set qs. fst x \<noteq> k}"
      using False e by fastforce
    show ?thesis unfolding l r by (rule insert_commute)
  qed
qed

lemma canonical_attach:
  assumes c: "canonical_props (props p)" and t: "tag e = Some k"
  shows "canonical_props (props (attach p e))"
proof -
  obtain l i tg v qs where p: "p = FamilyRow l i tg v qs" by (cases p)
  from c p have d: "distinct (map fst qs)" and oks: "\<forall>kv \<in> set qs. slot_ok (fst kv) (snd kv)"
    by (simp_all add: canonical_props_def)
  have new: "canonical_props (set_assoc qs k sl)" if "slot_ok k sl" for sl
    unfolding canonical_props_def
    using distinct_set_assoc [OF d] set_set_assoc [OF d] oks that by auto
  show ?thesis
  proof (cases "map_of qs k")
    case None
    show ?thesis
      using None p new [of "Many [e]"] new [of "One e"] t
      by (simp add: attach_FamilyRow [OF t] slot_ok_def)
  next
    case (Some sl)
    then have m: "(k, sl) \<in> set qs" by (rule map_of_SomeD)
    with oks have ok: "slot_ok k sl" by auto
    show ?thesis
    proof (cases sl)
      case (One r)
      with ok have "slot_ok k (Many [r, e])" using t by (simp add: slot_ok_def)
      from new [OF this] Some One p show ?thesis by (simp add: attach_FamilyRow [OF t])
    next
      case (Many rs)
      with ok have "slot_ok k (Many (rs @ [e]))" using t by (auto simp: slot_ok_def)
      from new [OF this] Some Many p show ?thesis by (simp add: attach_FamilyRow [OF t])
    qed
  qed
qed

lemma kids_Cons: "kids (kv # qs) = slot_rows (snd kv) @ kids qs"
  by (simp add: kids_def)

lemma kids_set_assoc:
  "set (kids (set_assoc qs k v)) \<subseteq> set (slot_rows v) \<union> set (kids qs)"
proof (induction qs)
  case Nil
  show ?case by (simp add: kids_def)
next
  case (Cons kv qs)
  obtain a b where e: "kv = (a, b)" by (cases kv)
  show ?case
  proof (cases "a = k")
    case True
    with e show ?thesis by (auto simp: kids_Cons)
  next
    case False
    with e Cons.IH show ?thesis by (auto simp: kids_Cons)
  qed
qed

lemma kids_attach:
  "set (kids (props (attach p e))) \<subseteq> insert e (set (kids (props p)))"
proof -
  obtain l i tg v qs where p: "p = FamilyRow l i tg v qs" by (cases p)
  define k where "k = (case tag e of None \<Rightarrow> ''undefined'' | Some t \<Rightarrow> t)"
  have old: "set (slot_rows sl) \<subseteq> set (kids qs)" if "map_of qs k = Some sl" for sl
  proof -
    from that have "(k, sl) \<in> set qs" by (rule map_of_SomeD)
    then show ?thesis by (auto simp: kids_def)
  qed
  have new: "set (kids (set_assoc qs k sl)) \<subseteq> insert e (set (kids qs))"
    if "set (slot_rows sl) \<subseteq> insert e (set (kids qs))" for sl
    using kids_set_assoc [of qs k sl] that by blast
  show ?thesis
  proof (cases "map_of qs k")
    case None
    have "set (kids (set_assoc qs k (Many [e]))) \<subseteq> insert e (set (kids qs))"
      by (rule new) (simp add: slot_rows_def)
    moreover have "set (kids (set_assoc qs k (One e))) \<subseteq> insert e (set (kids qs))"
      by (rule new) (simp add: slot_rows_def)
    ultimately show ?thesis
      using None p unfolding attach_def Let_def k_def [symmetric]
      by (simp add: get_prop_def set_prop_def)
  next
    case (Some sl)
    show ?thesis
    proof (cases sl)
      case (One r)
      from old [OF Some] One have "r \<in> set (kids qs)" by (simp add: slot_rows_def)
      then have "set (kids (set_assoc qs k (Many [r, e]))) \<subseteq> insert e (set (kids qs))"
        by (intro new) (simp add: slot_rows_def)
      then show ?thesis
        using Some One p unfolding attach_def Let_def k_def [symmetric]
        by (simp add: get_prop_def set_prop_def)
    next
      case (Many rs)
      from old [OF Some] Many have "set rs \<subseteq> set (kids qs)" by (simp add: slot_rows_def)
      then have "set (kids (set_assoc qs k (Many (rs @ [e])))) \<subseteq> insert e (set (kids qs))"
        by (intro new) (auto simp: slot_rows_def)
      then show ?thesis
        using Some Many p unfolding attach_def Let_def k_def [symmetric]
        by (simp add: get_prop_def set_prop_def)
    qed
  qed
qed

subsection \<open>The walk on the stack\<close>

lemma walk_up_stop: "walk_up n S = Inr S1 \<Longrightarrow> S1 \<noteq> [] \<and> \<not> level_gt (hd S1) n"
  by (induction n S rule: walk_up.induct) (auto split: if_splits)

lemma walk_up_stay: "\<not> level_gt p n \<Longrightarrow> walk_up n (p # ps) = Inr (p # ps)"
  by (cases ps) simp_all

lemma walk_up_pop: "level_gt c n \<Longrightarrow> walk_up n (c # p # ps) = walk_up n (attach p c # ps)"
  by simp

lemma level_gt_mono: "n \<le> m \<Longrightarrow> level_gt p m \<Longrightarrow> level_gt p n"
  by (auto simp: level_gt_def split: option.splits)

lemma walk_up_mono: "n \<le> m \<Longrightarrow> walk_up m S = Inr S1 \<Longrightarrow> walk_up n S = walk_up n S1"
proof (induction m S rule: walk_up.induct)
  case (1 m)
  then show ?case by simp
next
  case (2 m p)
  then show ?case by (auto split: if_splits)
next
  case (3 m p q qs)
  show ?case
  proof (cases "level_gt p m")
    case True
    with "3.prems" have w: "walk_up m (attach q p # qs) = Inr S1" by simp
    from True "3.prems"(1) have "level_gt p n" by (rule level_gt_mono [rotated])
    then have "walk_up n (p # q # qs) = walk_up n (attach q p # qs)" by simp
    also have "\<dots> = walk_up n S1" by (rule "3.IH" [OF True "3.prems"(1) w])
    finally show ?thesis .
  next
    case False
    with "3.prems" show ?thesis by simp
  qed
qed

lemma close_all_walk_up: "walk_up n S = Inr S1 \<Longrightarrow> close_all S1 = close_all S"
  by (induction n S rule: walk_up.induct) (auto split: if_splits)

lemma parse_lines_append:
  "parse_lines (xs @ ys) S =
     (case parse_lines xs S of Inl e \<Rightarrow> Inl e | Inr S' \<Rightarrow> parse_lines ys S')"
  by (induction xs arbitrary: S) (auto split: sum.splits)

subsection \<open>Reading the written lines of a record\<close>

definition row_ok :: "int \<Rightarrow> FamilyRow \<Rightarrow> bool" where
  "row_ok L r \<longleftrightarrow>
     num_level r = Some L \<and> (\<exists>t. tag r = Some t \<and> modelled_tag t) \<and>
     CHR 0x0A \<notin> set (toString r) \<and> formatLine (trim (toString r)) = hdr r"

fun good :: "int \<Rightarrow> FamilyRow \<Rightarrow> bool" where
  "good L (FamilyRow l i t v ps) \<longleftrightarrow>
     row_ok L (FamilyRow l i t v []) \<and> canonical_props ps \<and>
     list_all (\<lambda>(key, value).
                 case value of
                   One r \<Rightarrow> good (L + 1) r
                 | Many rs \<Rightarrow> list_all (good (L + 1)) rs) ps"

lemma hdr_hdr [simp]: "hdr (hdr r) = hdr r"
  by (simp add: hdr_def)

lemma row_ok_hdr: "row_ok L (hdr r) = row_ok L r"
  by (simp add: row_ok_def toString_hdr)

lemma good_iff:
  "good L c \<longleftrightarrow> row_ok L c \<and> canonical_props (props c) \<and> (\<forall>k \<in> set (kids (props c)). good (L + 1) k)"
proof (cases c)
  case (FamilyRow l i t v ps)
  let ?F = "\<lambda>(key, value). case value of One r \<Rightarrow> good (L + 1) r
                    | Many rs \<Rightarrow> list_all (good (L + 1)) rs"
  have one: "?F kv \<longleftrightarrow> (\<forall>k \<in> set (slot_rows (snd kv)). good (L + 1) k)" for kv
    by (cases kv; cases "snd kv") (simp_all add: slot_rows_def list_all_iff)
  have "list_all ?F ps \<longleftrightarrow> (\<forall>kv \<in> set ps. ?F kv)" by (simp add: list_all_iff)
  also have "\<dots> \<longleftrightarrow> (\<forall>kv \<in> set ps. \<forall>k \<in> set (slot_rows (snd kv)). good (L + 1) k)"
    by (rule ball_cong [OF refl]) (rule one)
  also have "\<dots> \<longleftrightarrow> (\<forall>k \<in> set (kids ps). good (L + 1) k)"
    by (auto simp: kids_def)
  finally have "list_all ?F ps \<longleftrightarrow> (\<forall>k \<in> set (kids ps). good (L + 1) k)" .
  moreover have "row_ok L (FamilyRow l i t v []) = row_ok L c"
    using row_ok_hdr [of L c] FamilyRow by (simp add: hdr_def)
  ultimately show ?thesis using FamilyRow by simp
qed

definition reparses :: "int \<Rightarrow> FamilyRow \<Rightarrow> bool" where
  "reparses L c \<longleftrightarrow>
     (\<forall>S p ps. walk_up L S = Inr (p # ps) \<longrightarrow>
        (\<exists>R. parse_lines (ser_lines c) S = Inr R \<and> walk_up L R = Inr (attach p c # ps)))"

lemma kids_reparse:
  "\<forall>k \<in> set ks. reparses M k \<Longrightarrow> walk_up M R0 = Inr (P # S') \<Longrightarrow>
   \<exists>R. parse_lines (concat (map ser_lines ks)) R0 = Inr R \<and>
       walk_up M R = Inr (fold (\<lambda>k P. attach P k) ks P # S')"
proof (induction ks arbitrary: R0 P)
  case Nil
  then show ?case by simp
next
  case (Cons k ks)
  from Cons.prems have "reparses M k" by simp
  with Cons.prems(2) obtain R1 where
    p1: "parse_lines (ser_lines k) R0 = Inr R1" and w1: "walk_up M R1 = Inr (attach P k # S')"
    unfolding reparses_def by blast
  from Cons.prems have "\<forall>k \<in> set ks. reparses M k" by simp
  from Cons.IH [OF this w1] obtain R where
    p2: "parse_lines (concat (map ser_lines ks)) R1 = Inr R"
    and w2: "walk_up M R = Inr (fold (\<lambda>k P. attach P k) ks (attach P k) # S')" by blast
  from p1 p2 w2 show ?case by (simp add: parse_lines_append)
qed

lemma parseLine_row:
  assumes "row_ok L c" and "walk_up L S = Inr S1"
  shows "parseLine (formatLine (trim (toString c))) S = Inr (hdr c # S1)"
proof -
  from assms(1) obtain t where "num_level c = Some L" "tag c = Some t" "modelled_tag t"
    and f: "formatLine (trim (toString c)) = hdr c"
    by (auto simp: row_ok_def)
  with assms(2) show ?thesis by (simp add: parseLine_def f)
qed

lemma good_reparses: "good L c \<Longrightarrow> reparses L c"
proof (induction c arbitrary: L rule: ser_lines.induct)
  case (1 l i t v ps)
  let ?c = "FamilyRow l i t v ps"
  from "1.prems" have rok: "row_ok L ?c" and can: "canonical_props ps"
    and gk: "\<forall>k \<in> set (kids ps). good (L + 1) k"
    using good_iff [of L ?c] by simp_all
  have rk: "\<forall>k \<in> set (kids ps). reparses (L + 1) k"
  proof
    fix k assume k: "k \<in> set (kids ps)"
    then obtain kv where kv: "kv \<in> set ps" and ks: "k \<in> set (slot_rows (snd kv))"
      by (auto simp: kids_def)
    obtain key "value" where e: "kv = (key, value)" by (cases kv)
    from gk k have g: "good (L + 1) k" by blast
    show "reparses (L + 1) k"
    proof (cases "value")
      case (One r)
      with ks e have "k = r" by (simp add: slot_rows_def)
      with "1.IH"(1) [OF kv e [symmetric] One] g show ?thesis by simp
    next
      case (Many rs)
      with ks e have "k \<in> set rs" by (simp add: slot_rows_def)
      from "1.IH"(2) [OF kv e [symmetric] Many this] g show ?thesis by simp
    qed
  qed
  from rok have nl: "num_level ?c = Some L" by (simp add: row_ok_def)
  show ?case
    unfolding reparses_def
  proof (intro allI impI)
    fix S p ps'
    assume w: "walk_up L S = Inr (p # ps')"
    have step: "parseLine (formatLine (trim (toString ?c))) S = Inr (hdr ?c # p # ps')"
      by (rule parseLine_row [OF rok w])
    have "\<not> level_gt (hdr ?c) (L + 1)" using nl by (simp add: level_gt_def)
    then have w0: "walk_up (L + 1) (hdr ?c # p # ps') = Inr (hdr ?c # p # ps')"
      by (rule walk_up_stay)
    from kids_reparse [OF rk w0] obtain R where
      pk: "parse_lines (concat (map ser_lines (kids ps))) (hdr ?c # p # ps') = Inr R"
      and wk: "walk_up (L + 1) R = Inr (fold (\<lambda>k P. attach P k) (kids ps) (hdr ?c) # p # ps')"
      by blast
    have b: "fold (\<lambda>k P. attach P k) (kids ps) (hdr ?c) = ?c"
      using build_row [of ?c] can by simp
    have "walk_up L R = walk_up L (?c # p # ps')"
      using walk_up_mono [OF _ wk, of L] b by simp
    also have "\<dots> = walk_up L (attach p ?c # ps')"
      using nl by (intro walk_up_pop) (simp add: level_gt_def)
    also have "\<dots> = Inr (attach p ?c # ps')"
      using walk_up_stop [OF w] by (intro walk_up_stay) simp
    finally have wl: "walk_up L R = Inr (attach p ?c # ps')" .
    have "parse_lines (ser_lines ?c) S = Inr R"
      using step pk by (simp add: ser_lines_kids del: ser_lines.simps)
    with wl show "\<exists>R. parse_lines (ser_lines ?c) S = Inr R \<and> walk_up L R = Inr (attach p ?c # ps')"
      by blast
  qed
qed

subsection \<open>Reading well-formed lines\<close>

lemma props_formatLine [simp]: "props (formatLine s) = []"
  by (simp add: formatLine_def new_FamilyRow_def Let_def split: list.splits)

lemma hdr_formatLine: "hdr (formatLine s) = formatLine s"
  by (cases "formatLine s") (use props_formatLine [of s] in \<open>simp add: hdr_def\<close>)

lemma line_ok_row: "line_ok line \<Longrightarrow> row_ok (line_level line) (formatLine (trim line))"
  by (auto simp: line_ok_def Let_def row_ok_def line_level_def hdr_formatLine
        split: option.splits)

lemma line_ok_level: "line_ok line \<Longrightarrow> 0 \<le> line_level line"
  by (auto simp: line_ok_def Let_def line_level_def split: option.splits)

lemma line_ok_good: "line_ok line \<Longrightarrow> good (line_level line) (formatLine (trim line))"
  using line_ok_row [of line] good_iff [of "line_level line" "formatLine (trim line)"]
  by (simp add: canonical_props_def kids_def)

lemma row_ok_attach: "row_ok L (attach p c) = row_ok L p"
  using row_ok_hdr [of L "attach p c"] row_ok_hdr [of L p] by simp

lemma good_attach:
  assumes p: "good L p" and c: "good (L + 1) c"
  shows "good L (attach p c)"
proof -
  from p have rp: "row_ok L p" and cp: "canonical_props (props p)"
    and kp: "\<forall>k \<in> set (kids (props p)). good (L + 1) k"
    using good_iff [of L p] by simp_all
  from c have "row_ok (L + 1) c" using good_iff [of "L + 1" c] by simp
  then obtain t where t: "tag c = Some t" by (auto simp: row_ok_def)
  have "row_ok L (attach p c)" using rp by (simp add: row_ok_attach)
  moreover have "canonical_props (props (attach p c))" by (rule canonical_attach [OF cp t])
  moreover have "\<forall>k \<in> set (kids (props (attach p c))). good (L + 1) k"
    using kids_attach [of p c] kp c by blast
  ultimately show ?thesis using good_iff [of L "attach p c"] by simp
qed

fun stack_ok :: "int \<Rightarrow> FamilyRow list \<Rightarrow> bool" where
  "stack_ok m [] = False"
| "stack_ok m [p] = (m = - 1 \<and> good (- 1) p \<and> hdr p = formatLine ''-1 TOP'')"
| "stack_ok m (p # q # qs) = (good m p \<and> stack_ok (m - 1) (q # qs))"

lemma stack_ok_head: "stack_ok m (p # ps) \<Longrightarrow> good m p"
  by (cases ps) simp_all

lemma stack_ok_attach:
  "stack_ok m (q # qs) \<Longrightarrow> good (m + 1) p \<Longrightarrow> stack_ok m (attach q p # qs)"
  using good_attach [of m q p] by (cases qs) simp_all

lemma good_level: "good L p \<Longrightarrow> num_level p = Some L"
  using good_iff [of L p] by (simp add: row_ok_def)

lemma walk_up_stack_ok:
  "stack_ok m S \<Longrightarrow> 0 \<le> n \<Longrightarrow> n \<le> m + 1 \<Longrightarrow>
   \<exists>S1. walk_up n S = Inr S1 \<and> stack_ok (n - 1) S1"
proof (induction n S arbitrary: m rule: walk_up.induct)
  case (1 n)
  then show ?case by simp
next
  case (2 n p)
  from "2.prems" have m: "m = - 1" and g: "good (- 1) p" by simp_all
  from g have "num_level p = Some (- 1)" by (rule good_level)
  with "2.prems" m show ?case by (simp add: level_gt_def)
next
  case (3 n p q qs)
  from "3.prems" have gp: "good m p" and rest: "stack_ok (m - 1) (q # qs)" by simp_all
  from gp have lp: "num_level p = Some m" by (rule good_level)
  show ?case
  proof (cases "level_gt p n")
    case True
    with lp have "n \<le> m" by (simp add: level_gt_def)
    then have le: "n \<le> (m - 1) + 1" by simp
    from gp have "good ((m - 1) + 1) p" by simp
    with rest have "stack_ok (m - 1) (attach q p # qs)" by (rule stack_ok_attach)
    from "3.IH" [OF True this "3.prems"(2) le] True show ?thesis by simp
  next
    case False
    with lp "3.prems" have "n = m + 1" by (simp add: level_gt_def)
    with False "3.prems"(1) show ?thesis by simp
  qed
qed

lemma parse_lines_stack_ok:
  "stack_ok m S \<Longrightarrow> list_all line_ok ls \<Longrightarrow> steps_ok m (map line_level ls) \<Longrightarrow>
   \<exists>S' m'. parse_lines ls S = Inr S' \<and> stack_ok m' S'"
proof (induction ls arbitrary: m S)
  case Nil
  then show ?case by auto
next
  case (Cons l ls)
  let ?r = "formatLine (trim l)"
  let ?n = "line_level l"
  from Cons.prems have ok: "line_ok l" and oks: "list_all line_ok ls"
    and n: "0 \<le> ?n" "?n \<le> m + 1" and st: "steps_ok ?n (map line_level ls)" by simp_all
  from ok have g: "good ?n ?r" by (rule line_ok_good)
  from ok have r: "row_ok ?n ?r" by (rule line_ok_row)
  from walk_up_stack_ok [OF Cons.prems(1) n] obtain S1 where
    w: "walk_up ?n S = Inr S1" and s1: "stack_ok (?n - 1) S1" by blast
  from s1 obtain q qs where S1: "S1 = q # qs" by (cases S1) simp_all
  have "parseLine (formatLine (trim (toString ?r))) S = Inr (hdr ?r # S1)"
    by (rule parseLine_row [OF r w])
  moreover from r have "formatLine (trim (toString ?r)) = ?r"
    by (simp add: row_ok_def hdr_formatLine)
  ultimately have pl: "parseLine ?r S = Inr (?r # S1)" by (simp add: hdr_formatLine)
  have "stack_ok ?n (?r # S1)" using g s1 S1 by simp
  from Cons.IH [OF this oks st] obtain S' m' where
    "parse_lines ls (?r # S1) = Inr S'" "stack_ok m' S'" by blast
  with pl show ?case by auto
qed

lemma close_all_stack_ok:
  "stack_ok m S \<Longrightarrow> good (- 1) (close_all S) \<and> hdr (close_all S) = formatLine ''-1 TOP''"
proof (induction S arbitrary: m rule: close_all.induct)
  case 1
  then show ?case by simp
next
  case (2 p)
  then show ?case by simp
next
  case (3 p q qs)
  from "3.prems" have gp: "good ((m - 1) + 1) p" and rest: "stack_ok (m - 1) (q # qs)"
    by simp_all
  from rest gp have "stack_ok (m - 1) (attach q p # qs)" by (rule stack_ok_attach)
  from "3.IH" [OF this] show ?case by simp
qed

lemma top_line: "formatLine ''-1 TOP'' = FamilyRow (Some (LStr ''-1'')) None (Some ''TOP'') None []"
  by code_simp

lemma top_row_ok: "row_ok (- 1) (formatLine ''-1 TOP'')"
proof -
  let ?t = "FamilyRow (Some (LStr ''-1'')) None (Some ''TOP'') None []"
  have a: "num_level ?t = Some (- 1)" by code_simp
  have b: "modelled_tag ''TOP''" by code_simp
  have c: "toString ?t = ''-1 TOP''" by code_simp
  have d: "trim ''-1 TOP'' = ''-1 TOP''" by code_simp
  show ?thesis
    unfolding row_ok_def top_line using a b c d top_line by (simp add: hdr_def)
qed

lemma stack_ok_start: "stack_ok (- 1) [formatLine ''-1 TOP'']"
  using top_row_ok good_iff [of "- 1" "formatLine ''-1 TOP''"]
  by (simp add: hdr_formatLine canonical_props_def kids_def)

subsection \<open>The written lines are read as they are\<close>

lemma dropWhile_snoc: "\<not> P x \<Longrightarrow> \<exists>w. dropWhile P (ys @ [x]) = w @ [x]"
  by (induction ys) auto

lemma trim_trim: "trim (trim s) = trim s"
proof (cases "dropWhile is_space s")
  case Nil
  show ?thesis unfolding trim_def Nil by simp
next
  case (Cons x u)
  then have nx: "\<not> is_space x" using hd_dropWhile [of is_space s] by simp
  from dropWhile_snoc [where P = is_space and x = x and ys = "rev u", OF nx] obtain w where
    w: "dropWhile is_space (rev u @ [x]) = w @ [x]" by blast
  have t: "trim s = x # rev w" using Cons w by (simp add: trim_def)
  have "dropWhile is_space (w @ [x]) = w @ [x]"
    using dropWhile_idem [of is_space "rev u @ [x]"] w by simp
  then have "trim (x # rev w) = x # rev w" using nx by (simp add: trim_def)
  with t show ?thesis by simp
qed

lemma parse_lines_trim: "parse_lines (map trim ls) S = parse_lines ls S"
  by (induction ls arbitrary: S) (auto simp: trim_trim split: sum.splits)

lemma empty_line: "tag (formatLine []) = None"
  by code_simp

lemma row_ok_line: "row_ok L c \<Longrightarrow> CHR 0x0A \<notin> set (toString c) \<and> trim (toString c) \<noteq> []"
proof -
  assume r: "row_ok L c"
  then obtain t where "tag (hdr c) = Some t" by (auto simp: row_ok_def)
  with r have "tag (formatLine (trim (toString c))) = Some t" by (simp add: row_ok_def)
  with empty_line have "trim (toString c) \<noteq> []" by auto
  with r show ?thesis by (simp add: row_ok_def)
qed

lemma good_lines:
  "good L c \<Longrightarrow> \<forall>l \<in> set (ser_lines c). CHR 0x0A \<notin> set l \<and> trim l \<noteq> []"
proof (induction c arbitrary: L rule: ser_lines.induct)
  case (1 l i t v ps)
  let ?c = "FamilyRow l i t v ps"
  from "1.prems" have rok: "row_ok L ?c"
    and gk: "\<forall>k \<in> set (kids ps). good (L + 1) k"
    using good_iff [of L ?c] by simp_all
  have rk: "\<forall>l \<in> set (ser_lines k). CHR 0x0A \<notin> set l \<and> trim l \<noteq> []"
    if k: "k \<in> set (kids ps)" for k
  proof -
    from k obtain kv where kv: "kv \<in> set ps" and ks: "k \<in> set (slot_rows (snd kv))"
      by (auto simp: kids_def)
    obtain key "value" where e: "kv = (key, value)" by (cases kv)
    from gk k have g: "good (L + 1) k" by blast
    show ?thesis
    proof (cases "value")
      case (One r)
      with ks e have "k = r" by (simp add: slot_rows_def)
      with "1.IH"(1) [OF kv e [symmetric] One] g show ?thesis by simp
    next
      case (Many rs)
      with ks e have "k \<in> set rs" by (simp add: slot_rows_def)
      from "1.IH"(2) [OF kv e [symmetric] Many this] g show ?thesis by simp
    qed
  qed
  have "\<forall>l \<in> set (concat (map ser_lines (kids ps))). CHR 0x0A \<notin> set l \<and> trim l \<noteq> []"
    using rk by auto
  with row_ok_line [OF rok] show ?case
    by (simp add: ser_lines_kids del: ser_lines.simps)
qed

subsection \<open>The order in which the root is written\<close>

lemma set_written_order: "set (written_order ps) = set ps"
  by (auto simp: written_order_def)

lemma head_not_trlr: "is_head kv \<Longrightarrow> \<not> is_trlr kv"
  by (cases "snd kv") (simp_all add: is_head_def is_trlr_def)

lemma distinct_written_order: "distinct ps \<Longrightarrow> distinct (written_order ps)"
  by (auto simp: written_order_def dest: head_not_trlr)

lemma canonical_written_order:
  assumes "canonical_props ps"
  shows "canonical_props (written_order ps)"
proof -
  from assms have d: "distinct (map fst ps)"
    and oks: "\<forall>kv \<in> set ps. slot_ok (fst kv) (snd kv)"
    by (simp_all add: canonical_props_def)
  from d have "distinct ps" and "inj_on fst (set ps)" by (simp_all add: distinct_map)
  then have "distinct (map fst (written_order ps))"
    by (simp add: distinct_map distinct_written_order set_written_order)
  with oks show ?thesis by (simp add: canonical_props_def set_written_order)
qed

lemma set_kids: "set (kids ps) = (\<Union>kv \<in> set ps. set (slot_rows (snd kv)))"
  by (simp add: kids_def)

lemma kids_written_order: "set (kids (written_order ps)) = set (kids ps)"
  by (simp add: set_kids set_written_order)

subsection \<open>Reading the text of a tree\<close>

lemma reparse_tree:
  assumes g: "good (- 1) t" and h: "hdr t = formatLine ''-1 TOP''"
  shows "parse_with built_in (importGedComText (createFileContent t)) = Inr (head_first t)"
proof -
  define ps where "ps = written_order (props t)"
  define ks where "ks = kids ps"
  define LS where "LS = concat (map ser_lines ks)"
  from g have can: "canonical_props (props t)"
    and gk: "\<forall>k \<in> set (kids (props t)). good 0 k"
    using good_iff [of "- 1" t] by simp_all
  have cps: "canonical_props ps" unfolding ps_def by (rule canonical_written_order [OF can])
  have gks: "\<forall>k \<in> set ks. good 0 k"
    unfolding ks_def ps_def using gk by (simp add: kids_written_order)
  have fine: "\<forall>l \<in> set LS. CHR 0x0A \<notin> set l \<and> trim l \<noteq> []"
    unfolding LS_def using gks good_lines by fastforce
  have cf: "createFileContent t = text_of LS"
    unfolding LS_def ks_def ps_def by (rule createFileContent_text)
  have lines: "importGedComText (createFileContent t) = LS @ [[]]"
    unfolding importGedComText_def cf using fine by (intro split_nl_text_of) blast
  have t0: "trim [] = []" by (simp add: trim_def)
  have "filter (\<lambda>line. line \<noteq> []) (map trim LS) = map trim LS"
    using fine by (intro filter_True) auto
  then have kept: "filter (\<lambda>line. line \<noteq> []) (map trim (LS @ [[]])) = map trim LS"
    by (simp add: t0)
  have rks: "\<forall>k \<in> set ks. reparses 0 k" using gks good_reparses by blast
  from g have "num_level t = Some (- 1)" by (rule good_level)
  then have "\<not> level_gt (hdr t) 0" by (simp add: level_gt_def)
  then have w0: "walk_up 0 [hdr t] = Inr [hdr t]" by simp
  from kids_reparse [OF rks w0] obtain R where
    p: "parse_lines LS [hdr t] = Inr R"
    and w: "walk_up 0 R = Inr [fold (\<lambda>k P. attach P k) ks (hdr t)]"
    unfolding LS_def by blast
  have "close_all R = close_all [fold (\<lambda>k P. attach P k) ks (hdr t)]"
    using close_all_walk_up [OF w] by simp
  also have "\<dots> = fold (\<lambda>k P. attach P k) ks (hdr t)" by simp
  also have "\<dots> = FamilyRow (level t) (id t) (tag t) (val t) ([] @ ps)"
    unfolding ks_def hdr_def
    using cps by (intro build_props) (simp_all add: canonical_props_def)
  also have "\<dots> = head_first t" by (simp add: head_first_def ps_def)
  finally have c: "close_all R = head_first t" .
  have "parse_lines (map trim LS) [formatLine ''-1 TOP''] = Inr R"
    using p h by (simp add: parse_lines_trim)
  with c kept lines show ?thesis
    by (simp add: parse_with_def)
qed


lemma wf_starter_lines: "wf_lines starter_lines"
  by code_simp

lemma parse_wf_lines:
  assumes wb: "wf_lines built_in" and wf: "wf_lines ls"
  shows "\<exists>t. parse_with built_in ls = Inr t \<and> good (- 1) t \<and> hdr t = formatLine ''-1 TOP''"
proof -
  define used where "used = (if ls = [] then built_in else ls)"
  define kept where "kept = filter (\<lambda>line. line \<noteq> []) (map trim used)"
  from wf wb have "wf_lines used" by (simp add: used_def)
  then have oks: "list_all line_ok kept" and st: "steps_ok (- 1) (map line_level kept)"
    by (simp_all add: wf_lines_def kept_def Let_def)
  from parse_lines_stack_ok [OF stack_ok_start oks st] obtain S' m' where
    p: "parse_lines kept [formatLine ''-1 TOP''] = Inr S'" and s: "stack_ok m' S'" by blast
  have "parse_with built_in ls = Inr (close_all S')"
    using p by (simp add: parse_with_def kept_def used_def)
  with close_all_stack_ok [OF s] show ?thesis by blast
qed

lemma head_first_get_prop:
  assumes "canonical_props (props t)"
  shows "get_prop (head_first t) k = get_prop t k"
proof -
  from assms have d: "distinct (map fst (props t))" by (simp add: canonical_props_def)
  from canonical_written_order [OF assms]
  have d': "distinct (map fst (written_order (props t)))" by (simp add: canonical_props_def)
  have "map_of (written_order (props t)) = map_of (props t)"
    using map_of_inject_set [OF d' d] by (simp add: set_written_order)
  then show ?thesis by (simp add: get_prop_def head_first_def)
qed

subsection \<open>Lines that are written as they were read\<close>

text \<open>
  A class of lines that meet the condition on a single line, described by their tokens: the
  line has no white space at its ends and no line feed, a level that is a whole number and
  not negative, and a tag of capital letters, digits and underscores. Either the second
  token is the tag, and then a value that matches the id pattern is allowed at level 1 and
  deeper only; or the second token starts with \<open>@\<close>, and then the level is 0, the third token
  is the tag and the value, if there is one, does not match the id pattern. For such a line
  \<^verbatim>\<open>toString\<close> writes the very text that \<^verbatim>\<open>formatLine\<close> read.
\<close>

definition direct_line :: "string \<Rightarrow> bool" where
  "direct_line s \<longleftrightarrow>
     trim s = s \<and> CHR 0x0A \<notin> set s \<and>
     (case split_sp s of
        lv # tmp # rest \<Rightarrow>
          (case int_of_string lv of
             None \<Rightarrow> False
           | Some n \<Rightarrow>
               0 \<le> n \<and>
               (if take 1 tmp = ''@''
                then n = 0 \<and>
                     (case rest of
                        [] \<Rightarrow> False
                      | t # vs \<Rightarrow> modelled_tag t \<and> (vs = [] \<or> \<not> match_id (join_sp vs)))
                else modelled_tag tmp \<and> (rest = [] \<or> \<not> match_id (join_sp rest) \<or> n \<noteq> 0)))
      | _ \<Rightarrow> False)"

lemma join_sp_Cons: "ws \<noteq> [] \<Longrightarrow> join_sp (w # ws) = w @ CHR '' '' # join_sp ws"
  by (cases ws) simp_all

lemma direct_line_read:
  assumes d: "direct_line s"
  shows "toString (formatLine s) = s \<and>
         (\<exists>n. num_level (formatLine s) = Some n \<and> 0 \<le> n) \<and>
         (\<exists>t. tag (formatLine s) = Some t \<and> modelled_tag t)"
proof -
  from d obtain lv tmp rest where sp: "split_sp s = lv # tmp # rest"
    by (auto simp: direct_line_def split: list.splits)
  from d sp obtain n where n: "int_of_string lv = Some n" "0 \<le> n"
    by (auto simp: direct_line_def split: option.splits)
  have js: "join_sp (lv # tmp # rest) = s" using join_split_sp [of s] sp by simp
  show ?thesis
  proof (cases "take 1 tmp = ''@''")
    case True
    with d sp n obtain t vs where rest: "rest = t # vs" and t: "modelled_tag t"
      and z: "n = 0" and v: "vs = [] \<or> \<not> match_id (join_sp vs)"
      by (auto simp: direct_line_def split: list.splits)
    show ?thesis
    proof (cases "vs = []")
      case True
      have f: "formatLine s = FamilyRow (Some (LStr lv)) (Some tmp) (Some t) None []"
        using sp \<open>take 1 tmp = ''@''\<close> rest True by (simp add: formatLine_def new_FamilyRow_def)
      show ?thesis
        using js rest True n z t
        by (simp add: f toString_def level_text_def level_is_zero_def num_level_def)
    next
      case False
      with v have nm: "\<not> match_id (join_sp vs)" by simp
      have f: "formatLine s = FamilyRow (Some (LStr lv)) (Some tmp) (Some t) (Some (join_sp vs)) []"
        using sp \<open>take 1 tmp = ''@''\<close> rest False nm
        by (simp add: formatLine_def new_FamilyRow_def)
      show ?thesis
        using js rest False n z t
        by (simp add: f toString_def level_text_def level_is_zero_def num_level_def join_sp_Cons)
    qed
  next
    case False
    with d sp n have t: "modelled_tag tmp"
      and v: "rest = [] \<or> \<not> match_id (join_sp rest) \<or> n \<noteq> 0"
      by (auto simp: direct_line_def)
    show ?thesis
    proof (cases "rest = []")
      case True
      have f: "formatLine s = FamilyRow (Some (LStr lv)) None (Some tmp) None []"
        using sp False True by (simp add: formatLine_def new_FamilyRow_def)
      show ?thesis
        using js True n t
        by (simp add: f toString_def level_text_def level_is_zero_def num_level_def)
    next
      case ne: False
      show ?thesis
      proof (cases "match_id (join_sp rest)")
        case True
        with v ne have nz: "n \<noteq> 0" by simp
        have f: "formatLine s = FamilyRow (Some (LStr lv)) (Some (join_sp rest)) (Some tmp) None []"
          using sp False ne True by (simp add: formatLine_def new_FamilyRow_def)
        show ?thesis
          using js ne n nz t
          by (simp add: f toString_def level_text_def level_is_zero_def num_level_def join_sp_Cons)
      next
        case nm: False
        have f: "formatLine s = FamilyRow (Some (LStr lv)) None (Some tmp) (Some (join_sp rest)) []"
          using sp False ne nm by (simp add: formatLine_def new_FamilyRow_def)
        show ?thesis
          using js ne n t
          by (simp add: f toString_def level_text_def level_is_zero_def num_level_def join_sp_Cons)
      qed
    qed
  qed
qed

lemma direct_line_ok: "direct_line s \<Longrightarrow> line_ok s"
proof -
  assume d: "direct_line s"
  then have tr: "trim s = s" and nl: "CHR 0x0A \<notin> set s" by (simp_all add: direct_line_def)
  from direct_line_read [OF d] obtain n t where
    "toString (formatLine s) = s" "num_level (formatLine s) = Some n" "0 \<le> n"
    "tag (formatLine s) = Some t" "modelled_tag t" by blast
  with tr nl show ?thesis by (simp add: line_ok_def Let_def)
qed

lemma direct_lines_wf:
  assumes d: "list_all direct_line ls" and st: "steps_ok (- 1) (map line_level ls)"
  shows "wf_lines ls"
proof -
  have each: "trim s = s \<and> s \<noteq> []" if "s \<in> set ls" for s
  proof -
    from d that have ds: "direct_line s" by (simp add: list_all_iff)
    then have "split_sp s \<noteq> [[]]" by (auto simp: direct_line_def split: list.splits)
    then have "s \<noteq> []" by auto
    with ds show ?thesis by (simp add: direct_line_def)
  qed
  then have "map trim ls = ls" by (simp add: map_idI)
  moreover have "filter (\<lambda>line. line \<noteq> []) ls = ls" using each by (intro filter_True) blast
  moreover have "list_all line_ok ls" using d direct_line_ok by (auto simp: list_all_iff)
  ultimately show ?thesis using st by (simp add: wf_lines_def)
qed

text \<open>
  White space that ends up at the end of a written line is lost when the line is read. The
  id \<^verbatim>\<open>@x@\<close> followed by a no-break space stands in the middle of its line; \<^verbatim>\<open>toString\<close>
  writes it last at level 1, and what is read back is the id \<^verbatim>\<open>@x@\<close>. The condition
  on a single line excludes such a line.
\<close>

lemma no_break_space_line:
  "formatLine (trim (''1 @x@'' @ [CHR 0xA0] @ '' NOTE'')) =
     FamilyRow (Some (LStr ''1'')) (Some (''@x@'' @ [CHR 0xA0])) (Some ''NOTE'') None [] \<and>
   toString (formatLine (trim (''1 @x@'' @ [CHR 0xA0] @ '' NOTE''))) = ''1 NOTE @x@'' @ [CHR 0xA0] \<and>
   formatLine (trim (''1 NOTE @x@'' @ [CHR 0xA0])) =
     FamilyRow (Some (LStr ''1'')) (Some ''@x@'') (Some ''NOTE'') None [] \<and>
   \<not> line_ok (''1 @x@'' @ [CHR 0xA0] @ '' NOTE'') \<and>
   \<not> wf_lines [''0 HEAD'', ''1 @x@'' @ [CHR 0xA0] @ '' NOTE'']"
  by code_simp

text \<open>Both copies of \<open>parse\<close> read back what \<^verbatim>\<open>createFileContent\<close> writes.\<close>

lemma read_back:
  assumes wb: "wf_lines built_in" and wf: "wf_lines ls"
  shows "\<exists>t. parse_with built_in ls = Inr t \<and>
             parse_with built_in (importGedComText (createFileContent t)) = Inr (head_first t) \<and>
             (\<forall>k. get_prop (head_first t) k = get_prop t k)"
proof -
  from parse_wf_lines [OF wb wf] obtain t where
    p: "parse_with built_in ls = Inr t" and g: "good (- 1) t"
    and h: "hdr t = formatLine ''-1 TOP''"
    by blast
  from g have "canonical_props (props t)" using good_iff [of "- 1" t] by simp
  then have "\<forall>k. get_prop (head_first t) k = get_prop t k"
    by (simp add: head_first_get_prop)
  with p reparse_tree [OF g h] show ?thesis by blast
qed

lemma read_back_starter:
  "wf_lines ls \<Longrightarrow>
   \<exists>t. parse_starter ls = Inr t \<and>
       parse_starter (importGedComText (createFileContent t)) = Inr (head_first t) \<and>
       (\<forall>k. get_prop (head_first t) k = get_prop t k)"
  unfolding parse_starter_def by (rule read_back [OF wf_starter_lines])

section \<open>Claims about writing and reading\<close>




end
